theory Spec2Isabelle
  imports Main
begin

section \<open>Data model\<close>

text \<open>
  Instants (Go's \<^verbatim>\<open>time.Time\<close>) are points of a linear time line, counted in
  nanoseconds; \<^verbatim>\<open>t.Before(u)\<close> and \<^verbatim>\<open>t.After(u)\<close> are the strict orders.
  Bytes and the characters of a Go string are both 8-bit values, HOL's \<^typ>\<open>char\<close>.
\<close>

type_synonym instant = int

definition Before :: "instant \<Rightarrow> instant \<Rightarrow> bool" where
  "Before t u = (t < u)"

definition After :: "instant \<Rightarrow> instant \<Rightarrow> bool" where
  "After t u = (t > u)"

record SerialLine =
  Timestamp :: instant
  Data :: string

record CSVExportOptions =
  FilePath :: string
  IncludeTimestamps :: bool
  FilterByTime :: bool
  StartTime :: instant
  EndTime :: instant
  CustomHeader :: "string list"

section \<open>CSV export\<close>

text \<open>
  \<^verbatim>\<open>strings.Split(s, ",")\<close>: the pieces between the separators, one more piece than
  there are separators; the empty string gives one empty piece.
\<close>

fun Split :: "string \<Rightarrow> char \<Rightarrow> string list" where
  "Split [] sep = [[]]"
| "Split (c # cs) sep =
     (if c = sep then [] # Split cs sep
      else (case Split cs sep of
              [] \<Rightarrow> [[c]]
            | p # ps \<Rightarrow> (c # p) # ps))"

text \<open>
  The file system and the CSV writer are outside the program. The environment says
  whether \<^verbatim>\<open>os.Create\<close> succeeds, whether the k-th call of \<^verbatim>\<open>w.Write\<close> succeeds
  (counted from 0, the header being call 0), and whether the writer reports no error
  after \<^verbatim>\<open>w.Flush()\<close>. The file is the sequence of records handed to the writer by
  the calls that succeeded; it is \<open>None\<close> when the file was never created.
\<close>

record io_env =
  create_ok :: bool
  write_ok :: "nat \<Rightarrow> bool"
  flush_ok :: bool

datatype export_error =
  CreateFailed
  | CustomHeaderWriteFailed
  | HeaderWriteFailed
  | RecordWriteFailed
  | FlushFailed

type_synonym csv_file = "string list list"

text \<open>The header row chosen by the first \<^verbatim>\<open>if\<close> chain of \<^verbatim>\<open>ExportCSV\<close>.\<close>

definition header_row :: "CSVExportOptions \<Rightarrow> string list" where
  "header_row opts =
     (if length (CustomHeader opts) > 0 then CustomHeader opts
      else if IncludeTimestamps opts then [''Timestamp'', ''Data'']
      else [''Data''])"

text \<open>Writing it is call 0 of \<^verbatim>\<open>w.Write\<close>; each branch wraps a failure in its own message.\<close>

definition write_header :: "io_env \<Rightarrow> CSVExportOptions \<Rightarrow> export_error + csv_file" where
  "write_header env opts =
     (if write_ok env 0 then Inr [header_row opts]
      else if length (CustomHeader opts) > 0 then Inl CustomHeaderWriteFailed
      else Inl HeaderWriteFailed)"

text \<open>The time filter at the head of the loop body: \<open>True\<close> is the \<^verbatim>\<open>continue\<close>.\<close>

definition skipped :: "CSVExportOptions \<Rightarrow> SerialLine \<Rightarrow> bool" where
  "skipped opts line =
     (FilterByTime opts \<and>
      (Before (Timestamp line) (StartTime opts) \<or> After (Timestamp line) (EndTime opts)))"

text \<open>The record built from a line that passed the filter. \<open>fmt\<close> stands for
  \<^verbatim>\<open>Timestamp.Format("2006-01-02 15:04:05.000")\<close>.\<close>

definition make_record :: "(instant \<Rightarrow> string) \<Rightarrow> CSVExportOptions \<Rightarrow> SerialLine \<Rightarrow> string list" where
  "make_record fmt opts line =
     (let fields = Split (Data line) CHR '',''
      in if IncludeTimestamps opts then [fmt (Timestamp line)] @ fields else fields)"

text \<open>
  The \<^verbatim>\<open>for _, line := range lines\<close> loop. \<open>file\<close> holds the records written so far,
  so its length is the index of the next \<^verbatim>\<open>w.Write\<close> call.
\<close>

fun write_lines ::
  "(instant \<Rightarrow> string) \<Rightarrow> io_env \<Rightarrow> CSVExportOptions \<Rightarrow> csv_file \<Rightarrow> SerialLine list
     \<Rightarrow> (export_error option \<times> csv_file)" where
  "write_lines fmt env opts file [] = (None, file)"
| "write_lines fmt env opts file (line # lines) =
     (if skipped opts line then write_lines fmt env opts file lines
      else if write_ok env (length file)
      then write_lines fmt env opts (file @ [make_record fmt opts line]) lines
      else (Some RecordWriteFailed, file))"

definition ExportCSV ::
  "(instant \<Rightarrow> string) \<Rightarrow> io_env \<Rightarrow> SerialLine list \<Rightarrow> CSVExportOptions
     \<Rightarrow> (export_error + unit) \<times> csv_file option" where
  "ExportCSV fmt env lines opts =
     (if \<not> create_ok env then (Inl CreateFailed, None)
      else (case write_header env opts of
              Inl e \<Rightarrow> (Inl e, Some [])
            | Inr file0 \<Rightarrow>
                (case write_lines fmt env opts file0 lines of
                   (Some e, file) \<Rightarrow> (Inl e, Some file)
                 | (None, file) \<Rightarrow>
                     (if flush_ok env then (Inr (), Some file)
                      else (Inl FlushFailed, Some file)))))"

text \<open>An environment in which no file operation fails.\<close>

definition io_ok :: "io_env \<Rightarrow> bool" where
  "io_ok env = (create_ok env \<and> (\<forall>k. write_ok env k) \<and> flush_ok env)"

section \<open>Line framing\<close>

definition LF :: char where
  "LF = CHR 0x0A"

definition CR :: char where
  "CR = CHR 0x0D"

text \<open>\<^verbatim>\<open>bytes.IndexByte\<close>: the index of the first occurrence, or -1.\<close>

fun IndexByte :: "char list \<Rightarrow> char \<Rightarrow> int" where
  "IndexByte [] c = -1"
| "IndexByte (b # bs) c =
     (if b = c then 0
      else (let i = IndexByte bs c in if i < 0 then -1 else i + 1))"

text \<open>
  One round of the inner \<^verbatim>\<open>for\<close> loop up to the send: \<open>None\<close> is the \<^verbatim>\<open>break\<close>,
  otherwise the line and what is left of \<^verbatim>\<open>partial\<close>.
\<close>

definition next_line :: "char list \<Rightarrow> (string \<times> char list) option" where
  "next_line partial =
     (let idx = IndexByte partial LF in
      if idx < 0 then None
      else
        (let lineData = take (nat idx) partial;
             lineData' = (if length lineData > 0 \<and> lineData ! (length lineData - 1) = CR
                          then take (length lineData - 1) lineData else lineData)
         in Some (lineData', drop (nat idx + 1) partial)))"

lemma IndexByte_lt: "0 \<le> IndexByte bs c \<Longrightarrow> nat (IndexByte bs c) < length bs"
  by (induction bs) (auto simp: Let_def split: if_splits)

lemma next_line_shorter: "next_line p = Some (l, p') \<Longrightarrow> length p' < length p"
  using IndexByte_lt [of p LF]
  by (auto simp: next_line_def Let_def split: if_splits)

text \<open>
  The framer: the inner loop run to its \<^verbatim>\<open>break\<close> with every send going through.
  It takes the accumulator and the chunk just read and gives the lines and the new
  accumulator.
\<close>

function extract_lines :: "char list \<Rightarrow> string list \<times> char list" where
  "extract_lines partial =
     (case next_line partial of
        None \<Rightarrow> ([], partial)
      | Some (l, rest) \<Rightarrow> (let (ls, r) = extract_lines rest in (l # ls, r)))"
  by pat_completeness auto
termination
  by (relation "measure length") (auto dest: next_line_shorter)

declare extract_lines.simps [simp del]

definition frame :: "char list \<Rightarrow> char list \<Rightarrow> string list \<times> char list" where
  "frame partial chunk = extract_lines (partial @ chunk)"

section \<open>The reader goroutine\<close>

text \<open>
  The goroutine started by \<^verbatim>\<open>StartReading\<close> sees the rest of the program through four
  observations in each round of its outer loop; a \<open>poll\<close> records them:
  \<^item> \<open>stop_at_top\<close>: \<^verbatim>\<open>sm.stopCh\<close> is closed at the \<^verbatim>\<open>select\<close> at the head of the loop;
  \<^item> \<open>read_data\<close>, \<open>read_err\<close>: \<^verbatim>\<open>buf[:n]\<close> and \<^verbatim>\<open>err\<close> as returned by \<^verbatim>\<open>port.Read(buf)\<close>;
  \<^item> \<open>stop_at_send\<close>: \<open>Some k\<close> when the \<^verbatim>\<open>select\<close> around the k-th send of this round
    (counted from 0) takes the \<^verbatim>\<open>sm.stopCh\<close> case, \<open>None\<close> when every send goes through;
  \<^item> \<open>stop_at_err\<close>: \<^verbatim>\<open>sm.stopCh\<close> is closed at the \<^verbatim>\<open>select\<close> under \<^verbatim>\<open>if err != nil\<close>.

  A script is the list of the polls of a run. A run that uses up its script without
  returning is still in its loop: \<open>exited\<close> is \<open>None\<close>.
\<close>

type_synonym error = string

type_synonym handle = nat

record poll =
  stop_at_top :: bool
  read_data :: "char list"
  read_err :: "error option"
  stop_at_send :: "nat option"
  stop_at_err :: bool

datatype reader_exit = CleanStop | Fault error | NilPanic

text \<open>
  \<open>partial\<close> is the accumulator, \<open>sent\<close> the lines sent on \<^verbatim>\<open>ch\<close> (oldest first),
  \<open>errCh\<close> what was sent on the error channel.
\<close>

record reader_state =
  partial :: "char list"
  sent :: "SerialLine list"
  errCh :: "error list"
  exited :: "reader_exit option"

text \<open>
  The inner loop with its sends. \<open>now\<close> is the clock: \<open>now i\<close> is what the i-th call of
  \<^verbatim>\<open>time.Now()\<close> returns. The result says whether the loop left through
  \<^verbatim>\<open>case <-sm.stopCh: return\<close>.
\<close>

function send_lines ::
  "(nat \<Rightarrow> instant) \<Rightarrow> nat option \<Rightarrow> nat \<Rightarrow> reader_state \<Rightarrow> bool \<times> reader_state" where
  "send_lines now stop k st =
     (case next_line (partial st) of
        None \<Rightarrow> (False, st)
      | Some (lineData, rest) \<Rightarrow>
          (let line = \<lparr>Timestamp = now (length (sent st)), Data = lineData\<rparr>;
               st' = st\<lparr>partial := rest\<rparr>
           in if stop = Some k then (True, st')
              else send_lines now stop (Suc k) (st'\<lparr>sent := sent st' @ [line]\<rparr>)))"
  by pat_completeness auto
termination
  by (relation "measure (\<lambda>(now, stop, k, st). length (partial st))")
     (auto dest: next_line_shorter)

declare send_lines.simps [simp del]

text \<open>
  The block under \<^verbatim>\<open>if n > 0\<close>: the chunk is appended to the accumulator and the inner
  loop runs. With \<^verbatim>\<open>n = 0\<close> nothing is touched.
\<close>

definition frame_and_send ::
  "(nat \<Rightarrow> instant) \<Rightarrow> poll \<Rightarrow> reader_state \<Rightarrow> bool \<times> reader_state" where
  "frame_and_send now p st =
     (if length (read_data p) > 0
      then send_lines now (stop_at_send p) 0 (st\<lparr>partial := partial st @ read_data p\<rparr>)
      else (False, st))"

text \<open>One round of the outer loop. \<open>dev\<close> is the local \<^verbatim>\<open>port\<close> captured by
  \<^verbatim>\<open>StartReading\<close>; when it is \<^verbatim>\<open>nil\<close>, \<^verbatim>\<open>port.Read\<close> panics.\<close>

definition iteration ::
  "(nat \<Rightarrow> instant) \<Rightarrow> handle option \<Rightarrow> poll \<Rightarrow> reader_state \<Rightarrow> reader_state" where
  "iteration now dev p st =
     (if stop_at_top p then st\<lparr>exited := Some CleanStop\<rparr>
      else (case dev of
              None \<Rightarrow> st\<lparr>exited := Some NilPanic\<rparr>
            | Some h \<Rightarrow>
                (let (stopped, st1) = frame_and_send now p st
                 in if stopped then st1\<lparr>exited := Some CleanStop\<rparr>
                    else (case read_err p of
                            None \<Rightarrow> st1
                          | Some e \<Rightarrow>
                              (if stop_at_err p then st1\<lparr>exited := Some CleanStop\<rparr>
                               else st1\<lparr>errCh := errCh st1 @ [e],
                                        exited := Some (Fault e)\<rparr>)))))"

fun reader_loop ::
  "(nat \<Rightarrow> instant) \<Rightarrow> handle option \<Rightarrow> poll list \<Rightarrow> reader_state \<Rightarrow> reader_state" where
  "reader_loop now dev [] st = st"
| "reader_loop now dev (p # ps) st =
     (let st' = iteration now dev p st
      in if exited st' \<noteq> None then st' else reader_loop now dev ps st')"

definition reader_task ::
  "(nat \<Rightarrow> instant) \<Rightarrow> handle option \<Rightarrow> poll list \<Rightarrow> reader_state" where
  "reader_task now dev script =
     reader_loop now dev script \<lparr>partial = [], sent = [], errCh = [], exited = None\<rparr>"

section \<open>The serial manager\<close>

text \<open>
  Channels live in a store: \<^verbatim>\<open>make(chan ...)\<close> appends a fresh open, empty channel and
  returns its index. Closing a \<^verbatim>\<open>nil\<close> or an already closed channel panics.
\<close>

type_synonym chan = nat

datatype msg = Line SerialLine | Err error

record chan_state =
  is_closed :: bool
  buffered :: "msg list"

record SerialManager =
  port :: "handle option"
  portName :: string
  baudRate :: int
  running :: bool
  stopCh :: "chan option"
  doneCh :: "chan option"

definition NewSerialManager :: SerialManager where
  "NewSerialManager =
     \<lparr>port = None, portName = [], baudRate = 9600, running = False,
      stopCh = None, doneCh = None\<rparr>"

text \<open>
  A reader goroutine as the rest of the program sees it. It holds the local \<^verbatim>\<open>port\<close>, the
  channels \<^verbatim>\<open>ch\<close> and \<^verbatim>\<open>errCh\<close> of its \<^verbatim>\<open>StartReading\<close> call, and the channel that
  \<^verbatim>\<open>defer close(sm.doneCh)\<close> will close: the argument of a deferred call is evaluated when
  the \<^verbatim>\<open>defer\<close> statement runs, at the start of the goroutine. The stop signal is not
  captured: every \<^verbatim>\<open>select\<close> reads the field \<^verbatim>\<open>sm.stopCh\<close> anew.
\<close>

record reader =
  r_port :: "handle option"
  r_ch :: chan
  r_errCh :: chan
  r_done :: "chan option"
  r_active :: bool

text \<open>
  A caller inside \<^verbatim>\<open>stopReader\<close>, between \<^verbatim>\<open>sm.mu.Unlock()\<close> and \<^verbatim>\<open>sm.mu.Lock()\<close>,
  is recorded with the local \<^verbatim>\<open>doneCh\<close> it waits on and the call it will go on with.
\<close>

datatype call = InDisconnect | InConnect string int

record world =
  sm :: SerialManager
  chans :: "chan_state list"
  readers :: "reader list"
  waiting :: "(chan option \<times> call) list"
  closed_ports :: "handle list"
  panicked :: bool

definition world0 :: world where
  "world0 =
     \<lparr>sm = NewSerialManager, chans = [], readers = [], waiting = [],
      closed_ports = [], panicked = False\<rparr>"

definition make_chan :: "world \<Rightarrow> chan \<times> world" where
  "make_chan w =
     (length (chans w), w\<lparr>chans := chans w @ [\<lparr>is_closed = False, buffered = []\<rparr>]\<rparr>)"

definition chan_closed :: "world \<Rightarrow> chan option \<Rightarrow> bool" where
  "chan_closed w c =
     (case c of None \<Rightarrow> False
      | Some i \<Rightarrow> i < length (chans w) \<and> is_closed (chans w ! i))"

definition close_chan :: "chan option \<Rightarrow> world \<Rightarrow> world" where
  "close_chan c w =
     (case c of
        None \<Rightarrow> w\<lparr>panicked := True\<rparr>
      | Some i \<Rightarrow>
          (if i < length (chans w) \<and> \<not> is_closed (chans w ! i)
           then w\<lparr>chans := (chans w)[i := (chans w ! i)\<lparr>is_closed := True\<rparr>]\<rparr>
           else w\<lparr>panicked := True\<rparr>))"

text \<open>
  \<^verbatim>\<open>StartReading\<close>, from its first line to the \<^verbatim>\<open>go\<close> statement. The mutex is held from
  \<^verbatim>\<open>sm.mu.Lock()\<close> to \<^verbatim>\<open>sm.mu.Unlock()\<close>, so the whole is one step for the other callers.
\<close>

definition StartReading :: "world \<Rightarrow> (chan \<times> chan) \<times> world" where
  "StartReading w =
     (let (ch, w1) = make_chan w;
          (errCh, w2) = make_chan w1
      in if running (sm w2) then
           ((ch, errCh), close_chan (Some errCh) (close_chan (Some ch) w2))
         else
           (let (s, w3) = make_chan w2;
                (d, w4) = make_chan w3;
                prt = port (sm w4);
                w5 = w4\<lparr>sm := (sm w4)\<lparr>stopCh := Some s, doneCh := Some d, running := True\<rparr>\<rparr>
            in ((ch, errCh),
                w5\<lparr>readers := readers w5 @
                     [\<lparr>r_port = prt, r_ch = ch, r_errCh = errCh, r_done = Some d,
                       r_active = True\<rparr>]\<rparr>)))"

text \<open>
  \<^verbatim>\<open>stopReader\<close> up to \<^verbatim>\<open>sm.mu.Unlock()\<close>. It either returns at once, or leaves the
  caller waiting on the local \<^verbatim>\<open>doneCh\<close> with the mutex released.
\<close>

datatype stop_result = Returned | Waiting "chan option"

definition stopReader_begin :: "world \<Rightarrow> stop_result \<times> world" where
  "stopReader_begin w =
     (if \<not> running (sm w) then (Returned, w)
      else
        (let w1 = close_chan (stopCh (sm w)) w;
             d = doneCh (sm w1)
         in (Waiting d, w1\<lparr>sm := (sm w1)\<lparr>running := False\<rparr>\<rparr>)))"

text \<open>\<^verbatim>\<open>if doneCh != nil { <-doneCh }\<close>: nothing is ever sent on the channel, so the
  receive returns exactly when the channel is closed.\<close>

definition wait_over :: "world \<Rightarrow> chan option \<Rightarrow> bool" where
  "wait_over w d = (case d of None \<Rightarrow> True | Some i \<Rightarrow> chan_closed w (Some i))"

text \<open>\<^verbatim>\<open>if sm.port != nil { sm.port.Close(); sm.port = nil }\<close>, as in \<^verbatim>\<open>Connect\<close> and
  \<^verbatim>\<open>Disconnect\<close>.\<close>

definition close_port :: "world \<Rightarrow> world" where
  "close_port w =
     (case port (sm w) of
        None \<Rightarrow> w
      | Some h \<Rightarrow> w\<lparr>closed_ports := closed_ports w @ [h], sm := (sm w)\<lparr>port := None\<rparr>\<rparr>)"

text \<open>\<^verbatim>\<open>Disconnect\<close> after \<^verbatim>\<open>stopReader\<close> has returned.\<close>

definition Disconnect_finish :: "world \<Rightarrow> world" where
  "Disconnect_finish w = close_port w"

text \<open>\<^verbatim>\<open>Connect\<close> after \<^verbatim>\<open>stopReader\<close> has returned. \<open>opened\<close> is what
  \<^verbatim>\<open>serial.Open\<close> returns.\<close>

definition Connect_finish ::
  "string \<Rightarrow> int \<Rightarrow> error + handle \<Rightarrow> world \<Rightarrow> error option \<times> world" where
  "Connect_finish name baud opened w =
     (let w1 = close_port w
      in case opened of
           Inl err \<Rightarrow> (Some err, w1)
         | Inr p \<Rightarrow>
             (None, w1\<lparr>sm := (sm w1)\<lparr>port := Some p, portName := name, baudRate := baud\<rparr>\<rparr>))"

fun finish :: "call \<Rightarrow> error + handle \<Rightarrow> world \<Rightarrow> world" where
  "finish InDisconnect opened w = Disconnect_finish w"
| "finish (InConnect name baud) opened w = snd (Connect_finish name baud opened w)"

text \<open>
  The return of reader \<open>i\<close>: the deferred calls run last in, first out, so the done channel
  is closed first and \<^verbatim>\<open>ch\<close> second.
\<close>

definition reader_return :: "nat \<Rightarrow> world \<Rightarrow> world" where
  "reader_return i w =
     (let r = readers w ! i;
          w1 = close_chan (r_done r) w;
          w2 = close_chan (Some (r_ch r)) w1
      in w2\<lparr>readers := (readers w2)[i := r\<lparr>r_active := False\<rparr>]\<rparr>)"

definition send_on :: "chan \<Rightarrow> msg \<Rightarrow> world \<Rightarrow> world" where
  "send_on c m w = w\<lparr>chans := (chans w)[c := (chans w ! c)\<lparr>buffered := buffered (chans w ! c) @ [m]\<rparr>]\<rparr>"

text \<open>
  The steps of the reader goroutines, which take no lock. A reader whose \<^verbatim>\<open>select\<close> finds
  \<^verbatim>\<open>sm.stopCh\<close> closed returns; one whose read fails while \<^verbatim>\<open>sm.stopCh\<close> is open sends
  the error and returns; one with room in \<^verbatim>\<open>ch\<close> (capacity 256) may send a line; one
  whose port is \<^verbatim>\<open>nil\<close> panics at its read.
\<close>

inductive reader_step :: "world \<Rightarrow> world \<Rightarrow> bool" where
  r_stop:
    "i < length (readers w) \<Longrightarrow> r_active (readers w ! i) \<Longrightarrow>
     chan_closed w (stopCh (sm w)) \<Longrightarrow>
     reader_step w (reader_return i w)"
| r_fault:
    "i < length (readers w) \<Longrightarrow> r_active (readers w ! i) \<Longrightarrow>
     r_port (readers w ! i) = Some h \<Longrightarrow> \<not> chan_closed w (stopCh (sm w)) \<Longrightarrow>
     reader_step w (reader_return i (send_on (r_errCh (readers w ! i)) (Err e) w))"
| r_send:
    "i < length (readers w) \<Longrightarrow> r_active (readers w ! i) \<Longrightarrow>
     r_port (readers w ! i) = Some h \<Longrightarrow>
     length (buffered (chans w ! r_ch (readers w ! i))) < 256 \<Longrightarrow>
     reader_step w (send_on (r_ch (readers w ! i)) (Line l) w)"
| r_nil:
    "i < length (readers w) \<Longrightarrow> r_active (readers w ! i) \<Longrightarrow>
     r_port (readers w ! i) = None \<Longrightarrow> \<not> chan_closed w (stopCh (sm w)) \<Longrightarrow>
     reader_step w ((reader_return i w)\<lparr>panicked := True\<rparr>)"

text \<open>
  A call of \<^verbatim>\<open>Disconnect\<close> by a caller that is alone: while it waits in \<^verbatim>\<open>stopReader\<close>
  only the reader goroutines move. The call takes \<open>w\<close> to \<open>w'\<close>.
\<close>

inductive Disconnect_call :: "world \<Rightarrow> world \<Rightarrow> bool" where
  Disconnect_idle:
    "stopReader_begin w = (Returned, w1) \<Longrightarrow> Disconnect_call w (Disconnect_finish w1)"
| Disconnect_join:
    "stopReader_begin w = (Waiting d, w1) \<Longrightarrow> reader_step\<^sup>*\<^sup>* w1 w2 \<Longrightarrow> wait_over w2 d \<Longrightarrow>
     Disconnect_call w (Disconnect_finish w2)"

text \<open>
  The program with any number of callers. Between \<^verbatim>\<open>sm.mu.Lock()\<close> and the next
  \<^verbatim>\<open>sm.mu.Unlock()\<close> a caller runs alone, so each such stretch is one step; the stretches
  of different callers and the steps of the readers interleave freely. A panic ends the
  program.
\<close>

inductive step :: "world \<Rightarrow> world \<Rightarrow> bool" where
  call_StartReading:
    "\<not> panicked w \<Longrightarrow> step w (snd (StartReading w))"
| call_idle:
    "\<not> panicked w \<Longrightarrow> stopReader_begin w = (Returned, w1) \<Longrightarrow>
     step w (finish c opened w1)"
| call_wait:
    "\<not> panicked w \<Longrightarrow> stopReader_begin w = (Waiting d, w1) \<Longrightarrow>
     step w (w1\<lparr>waiting := waiting w1 @ [(d, c)]\<rparr>)"
| call_resume:
    "\<not> panicked w \<Longrightarrow> i < length (waiting w) \<Longrightarrow> waiting w ! i = (d, c) \<Longrightarrow>
     wait_over w d \<Longrightarrow>
     step w (finish c opened (w\<lparr>waiting := take i (waiting w) @ drop (Suc i) (waiting w)\<rparr>))"
| goroutine:
    "\<not> panicked w \<Longrightarrow> reader_step w w' \<Longrightarrow> step w w'"

definition reachable :: "world \<Rightarrow> bool" where
  "reachable w = step\<^sup>*\<^sup>* world0 w"

text \<open>
  A call of \<^verbatim>\<open>Connect\<close> by a caller that is alone, and the states a single caller can
  bring about: it makes one call after the other, and the readers move in between.
\<close>

inductive Connect_call :: "string \<Rightarrow> int \<Rightarrow> error + handle \<Rightarrow> world \<Rightarrow> world \<Rightarrow> bool" where
  Connect_idle:
    "stopReader_begin w = (Returned, w1) \<Longrightarrow>
     Connect_call name baud opened w (snd (Connect_finish name baud opened w1))"
| Connect_join:
    "stopReader_begin w = (Waiting d, w1) \<Longrightarrow> reader_step\<^sup>*\<^sup>* w1 w2 \<Longrightarrow> wait_over w2 d \<Longrightarrow>
     Connect_call name baud opened w (snd (Connect_finish name baud opened w2))"

inductive sequential :: "world \<Rightarrow> bool" where
  seq_init: "sequential world0"
| seq_StartReading: "sequential w \<Longrightarrow> sequential (snd (StartReading w))"
| seq_Disconnect: "sequential w \<Longrightarrow> Disconnect_call w w' \<Longrightarrow> sequential w'"
| seq_Connect: "sequential w \<Longrightarrow> Connect_call name baud opened w w' \<Longrightarrow> sequential w'"
| seq_reader: "sequential w \<Longrightarrow> reader_step w w' \<Longrightarrow> sequential w'"

text \<open>
  The state of the readers that a caller waiting in \<^verbatim>\<open>stopReader\<close> relies on: at most one
  reader is active, and while one is, the done channel of the manager is open. Between the
  calls of a single caller, an active reader moreover comes with \<open>running\<close> set and with
  a stop channel other than the done channel.
\<close>

definition joinable :: "world \<Rightarrow> bool" where
  "joinable w =
     ((\<forall>i < length (readers w). \<forall>j < length (readers w).
         r_active (readers w ! i) \<longrightarrow> r_active (readers w ! j) \<longrightarrow> i = j) \<and>
      (\<forall>i < length (readers w). r_active (readers w ! i) \<longrightarrow>
         (\<exists>d. doneCh (sm w) = Some d \<and> d < length (chans w) \<and> \<not> is_closed (chans w ! d))))"

definition quiet :: "world \<Rightarrow> bool" where
  "quiet w =
     (joinable w \<and>
      (\<forall>i < length (readers w). r_active (readers w ! i) \<longrightarrow>
         running (sm w) \<and> stopCh (sm w) \<noteq> doneCh (sm w)))"

definition no_active :: "world \<Rightarrow> bool" where
  "no_active w = (\<forall>r \<in> set (readers w). \<not> r_active r)"

section \<open>Properties of the CSV export\<close>

lemma write_lines_ok:
  "\<forall>k. write_ok env k \<Longrightarrow>
   write_lines fmt env opts written lines =
     (None, written @ map (make_record fmt opts) (filter (\<lambda>l. \<not> skipped opts l) lines))"
  by (induction lines arbitrary: written) auto

lemma write_lines_all_skipped:
  "\<forall>l \<in> set lines. skipped opts l \<Longrightarrow> write_lines fmt env opts written lines = (None, written)"
  by (induction lines) auto

lemma write_lines_prefix:
  "write_lines fmt env opts written lines = (r, written') \<Longrightarrow>
   \<exists>n. written' =
     written @ take n (map (make_record fmt opts) (filter (\<lambda>l. \<not> skipped opts l) lines))"
proof (induction lines arbitrary: written)
  case Nil
  then show ?case by simp
next
  case (Cons l ls)
  show ?case
  proof (cases "skipped opts l")
    case True
    with Cons show ?thesis by simp
  next
    case False
    show ?thesis
    proof (cases "write_ok env (length written)")
      case True
      with False Cons.prems
      have "write_lines fmt env opts (written @ [make_record fmt opts l]) ls = (r, written')"
        by simp
      from Cons.IH [OF this] obtain n where
        "written' = (written @ [make_record fmt opts l]) @
           take n (map (make_record fmt opts) (filter (\<lambda>l. \<not> skipped opts l) ls))"
        by blast
      then have "written' = written @
           take (Suc n) (map (make_record fmt opts) (filter (\<lambda>l. \<not> skipped opts l) (l # ls)))"
        using False by simp
      then show ?thesis by blast
    next
      case unwritten: False
      with False Cons.prems have "written' = written" by simp
      then have "written' = written @
           take 0 (map (make_record fmt opts) (filter (\<lambda>l. \<not> skipped opts l) (l # ls)))"
        by simp
      then show ?thesis by blast
    qed
  qed
qed

lemma ExportCSV_ok:
  "io_ok env \<Longrightarrow>
   ExportCSV fmt env lines opts =
     (Inr (), Some (header_row opts #
                    map (make_record fmt opts) (filter (\<lambda>l. \<not> skipped opts l) lines)))"
  by (simp add: ExportCSV_def io_ok_def write_header_def write_lines_ok)

lemma ExportCSV_file_prefix:
  assumes "ExportCSV fmt env lines opts = (r, Some written)"
  shows "\<exists>n. written = take n (header_row opts #
            map (make_record fmt opts) (filter (\<lambda>l. \<not> skipped opts l) lines))"
proof (cases "create_ok env \<and> write_ok env 0")
  case False
  with assms have "written = []"
    by (auto simp: ExportCSV_def write_header_def split: if_splits)
  then have "written = take 0 (header_row opts #
            map (make_record fmt opts) (filter (\<lambda>l. \<not> skipped opts l) lines))"
    by simp
  then show ?thesis by blast
next
  case True
  obtain e w where wl: "write_lines fmt env opts [header_row opts] lines = (e, w)"
    by (cases "write_lines fmt env opts [header_row opts] lines")
  with True assms have "written = w"
    by (auto simp: ExportCSV_def write_header_def split: if_splits option.splits)
  with write_lines_prefix [OF wl] obtain n where
    "written = [header_row opts] @
       take n (map (make_record fmt opts) (filter (\<lambda>l. \<not> skipped opts l) lines))"
    by blast
  then have "written = take (Suc n) (header_row opts #
            map (make_record fmt opts) (filter (\<lambda>l. \<not> skipped opts l) lines))"
    by simp
  then show ?thesis by blast
qed

lemma skipped_iff:
  "skipped opts l \<longleftrightarrow>
     FilterByTime opts \<and> \<not> (StartTime opts \<le> Timestamp l \<and> Timestamp l \<le> EndTime opts)"
  by (auto simp: skipped_def Before_def After_def)

text \<open>
  Claim C2. When no file operation fails, the export succeeds and the file is the header
  row followed by one record per line that passed the filter, in order. The header is the
  custom header, unchanged, whenever one is given (whatever \<open>IncludeTimestamps\<close> says),
  otherwise \<open>Timestamp,Data\<close> with timestamps and \<open>Data\<close> without. Whichever header was
  written, each record starts with the formatted timestamp exactly when
  \<open>IncludeTimestamps\<close> is set.
\<close>

theorem ExportCSV_header_and_rows:
  assumes "io_ok env"
  shows "ExportCSV fmt env lines opts =
     (Inr (),
      Some ((if CustomHeader opts \<noteq> [] then CustomHeader opts
             else if IncludeTimestamps opts then [''Timestamp'', ''Data'']
             else [''Data'']) #
            map (\<lambda>l. if IncludeTimestamps opts
                      then fmt (Timestamp l) # Split (Data l) CHR '',''
                      else Split (Data l) CHR '','')
                (filter (\<lambda>l. \<not> skipped opts l) lines)))"
proof -
  have "make_record fmt opts = (\<lambda>l. if IncludeTimestamps opts
                      then fmt (Timestamp l) # Split (Data l) CHR '',''
                      else Split (Data l) CHR '','')"
    by (rule ext) (simp add: make_record_def)
  then show ?thesis
    using ExportCSV_ok [OF assms, of fmt lines opts] by (simp add: header_row_def)
qed

theorem ExportCSV_header_and_rows_witness:
  "io_ok \<lparr>create_ok = True, write_ok = (\<lambda>k. True), flush_ok = True\<rparr> \<and>
   ExportCSV (\<lambda>t. if t = 5 then ''12:00:05.000'' else ''12:00:07.000'')
     \<lparr>create_ok = True, write_ok = (\<lambda>k. True), flush_ok = True\<rparr>
     [\<lparr>Timestamp = 5, Data = ''1,2''\<rparr>, \<lparr>Timestamp = 7, Data = ''3''\<rparr>]
     \<lparr>FilePath = ''out.csv'', IncludeTimestamps = True, FilterByTime = False,
      StartTime = 0, EndTime = 0, CustomHeader = [''A'', ''B'', ''C'']\<rparr> =
   (Inr (), Some [[''A'', ''B'', ''C''], [''12:00:05.000'', ''1'', ''2''], [''12:00:07.000'', ''3'']])"
proof -
  have h: "io_ok \<lparr>create_ok = True, write_ok = (\<lambda>k. True), flush_ok = True\<rparr>"
    by (simp add: io_ok_def)
  show ?thesis
    using h ExportCSV_header_and_rows [OF h,
      of "\<lambda>t. if t = 5 then ''12:00:05.000'' else ''12:00:07.000''"
         "[\<lparr>Timestamp = 5, Data = ''1,2''\<rparr>, \<lparr>Timestamp = 7, Data = ''3''\<rparr>]"
         "\<lparr>FilePath = ''out.csv'', IncludeTimestamps = True, FilterByTime = False,
           StartTime = 0, EndTime = 0, CustomHeader = [''A'', ''B'', ''C'']\<rparr>"]
    by (simp add: skipped_def)
qed

text \<open>
  Claim C3. With time filtering on, a line is skipped exactly when its timestamp is not
  within \<open>StartTime \<le> t \<le> EndTime\<close>, both ends included; the records written are those of
  the lines within the range, and with \<open>StartTime = EndTime\<close> those of the lines stamped
  with exactly that instant.
\<close>

theorem ExportCSV_time_filter:
  assumes "io_ok env" and "FilterByTime opts"
  shows "(\<forall>l. skipped opts l \<longleftrightarrow>
              \<not> (StartTime opts \<le> Timestamp l \<and> Timestamp l \<le> EndTime opts)) \<and>
         ExportCSV fmt env lines opts =
           (Inr (), Some (header_row opts # map (make_record fmt opts)
              (filter (\<lambda>l. StartTime opts \<le> Timestamp l \<and> Timestamp l \<le> EndTime opts) lines))) \<and>
         (StartTime opts = EndTime opts \<longrightarrow>
          ExportCSV fmt env lines opts =
           (Inr (), Some (header_row opts # map (make_record fmt opts)
              (filter (\<lambda>l. Timestamp l = StartTime opts) lines))))"
proof -
  have sk: "skipped opts l \<longleftrightarrow>
              \<not> (StartTime opts \<le> Timestamp l \<and> Timestamp l \<le> EndTime opts)" for l
    using assms(2) by (simp add: skipped_iff)
  have f: "filter (\<lambda>l. \<not> skipped opts l) lines =
           filter (\<lambda>l. StartTime opts \<le> Timestamp l \<and> Timestamp l \<le> EndTime opts) lines"
    by (simp add: sk)
  have g: "StartTime opts = EndTime opts \<Longrightarrow>
           filter (\<lambda>l. StartTime opts \<le> Timestamp l \<and> Timestamp l \<le> EndTime opts) lines =
           filter (\<lambda>l. Timestamp l = StartTime opts) lines"
    by (rule filter_cong) auto
  show ?thesis
    using ExportCSV_ok [OF assms(1), of fmt lines opts] sk f g by simp
qed

theorem ExportCSV_time_filter_witness:
  "io_ok \<lparr>create_ok = True, write_ok = (\<lambda>k. True), flush_ok = True\<rparr> \<and>
   FilterByTime \<lparr>FilePath = ''out.csv'', IncludeTimestamps = False, FilterByTime = True,
      StartTime = 5, EndTime = 5, CustomHeader = []\<rparr> \<and>
   ExportCSV (\<lambda>t. ''12:00:05.000'')
     \<lparr>create_ok = True, write_ok = (\<lambda>k. True), flush_ok = True\<rparr>
     [\<lparr>Timestamp = 4, Data = ''a''\<rparr>, \<lparr>Timestamp = 5, Data = ''b,c''\<rparr>,
      \<lparr>Timestamp = 6, Data = ''d''\<rparr>, \<lparr>Timestamp = 5, Data = ''e''\<rparr>]
     \<lparr>FilePath = ''out.csv'', IncludeTimestamps = False, FilterByTime = True,
      StartTime = 5, EndTime = 5, CustomHeader = []\<rparr> =
   (Inr (), Some [[''Data''], [''b'', ''c''], [''e'']])"
proof -
  have h: "io_ok \<lparr>create_ok = True, write_ok = (\<lambda>k. True), flush_ok = True\<rparr>"
    by (simp add: io_ok_def)
  have f: "FilterByTime \<lparr>FilePath = ''out.csv'', IncludeTimestamps = False, FilterByTime = True,
      StartTime = 5, EndTime = 5, CustomHeader = []\<rparr>"
    by simp
  show ?thesis
    using h ExportCSV_time_filter [OF h f, of "\<lambda>t. ''12:00:05.000''"
         "[\<lparr>Timestamp = 4, Data = ''a''\<rparr>, \<lparr>Timestamp = 5, Data = ''b,c''\<rparr>,
           \<lparr>Timestamp = 6, Data = ''d''\<rparr>, \<lparr>Timestamp = 5, Data = ''e''\<rparr>]"]
    by (simp add: header_row_def make_record_def)
qed

text \<open>
  Claim C6. With time filtering on and \<open>EndTime\<close> strictly before \<open>StartTime\<close>, every
  line is skipped: the export behaves as on an empty list of lines, and when no file
  operation fails it succeeds with the header row alone.
\<close>

theorem ExportCSV_malformed_range:
  assumes "FilterByTime opts" and "EndTime opts < StartTime opts"
  shows "ExportCSV fmt env lines opts = ExportCSV fmt env [] opts \<and>
         (io_ok env \<longrightarrow> ExportCSV fmt env lines opts = (Inr (), Some [header_row opts]))"
proof -
  have "skipped opts l" for l
    using assms by (auto simp: skipped_iff)
  then have wl: "write_lines fmt env opts written lines = (None, written)" for written
    by (simp add: write_lines_all_skipped)
  have a: "ExportCSV fmt env lines opts = ExportCSV fmt env [] opts"
    by (simp add: ExportCSV_def wl split: sum.splits)
  have b: "io_ok env \<Longrightarrow> ExportCSV fmt env [] opts = (Inr (), Some [header_row opts])"
    by (simp add: ExportCSV_ok)
  show ?thesis using a b by simp
qed

theorem ExportCSV_malformed_range_witness:
  "FilterByTime \<lparr>FilePath = ''out.csv'', IncludeTimestamps = True, FilterByTime = True,
      StartTime = 9, EndTime = 3, CustomHeader = []\<rparr> \<and>
   EndTime \<lparr>FilePath = ''out.csv'', IncludeTimestamps = True, FilterByTime = True,
      StartTime = 9, EndTime = 3, CustomHeader = []\<rparr>
   < StartTime \<lparr>FilePath = ''out.csv'', IncludeTimestamps = True, FilterByTime = True,
      StartTime = 9, EndTime = 3, CustomHeader = []\<rparr> \<and>
   io_ok \<lparr>create_ok = True, write_ok = (\<lambda>k. True), flush_ok = True\<rparr> \<and>
   ExportCSV (\<lambda>t. ''12:00:05.000'')
     \<lparr>create_ok = True, write_ok = (\<lambda>k. True), flush_ok = True\<rparr>
     [\<lparr>Timestamp = 2, Data = ''a''\<rparr>, \<lparr>Timestamp = 5, Data = ''b''\<rparr>, \<lparr>Timestamp = 10, Data = ''c''\<rparr>]
     \<lparr>FilePath = ''out.csv'', IncludeTimestamps = True, FilterByTime = True,
      StartTime = 9, EndTime = 3, CustomHeader = []\<rparr> =
   (Inr (), Some [[''Timestamp'', ''Data'']])"
proof -
  have h: "io_ok \<lparr>create_ok = True, write_ok = (\<lambda>k. True), flush_ok = True\<rparr>"
    by (simp add: io_ok_def)
  have f: "FilterByTime \<lparr>FilePath = ''out.csv'', IncludeTimestamps = True, FilterByTime = True,
      StartTime = 9, EndTime = 3, CustomHeader = []\<rparr>"
    by simp
  have r: "EndTime \<lparr>FilePath = ''out.csv'', IncludeTimestamps = True, FilterByTime = True,
      StartTime = 9, EndTime = 3, CustomHeader = []\<rparr>
   < StartTime \<lparr>FilePath = ''out.csv'', IncludeTimestamps = True, FilterByTime = True,
      StartTime = 9, EndTime = 3, CustomHeader = []\<rparr>"
    by simp
  from h ExportCSV_malformed_range [OF f r, of "\<lambda>t. ''12:00:05.000''"
         "\<lparr>create_ok = True, write_ok = (\<lambda>k. True), flush_ok = True\<rparr>"
         "[\<lparr>Timestamp = 2, Data = ''a''\<rparr>, \<lparr>Timestamp = 5, Data = ''b''\<rparr>, \<lparr>Timestamp = 10, Data = ''c''\<rparr>]"]
  have "ExportCSV (\<lambda>t. ''12:00:05.000'')
     \<lparr>create_ok = True, write_ok = (\<lambda>k. True), flush_ok = True\<rparr>
     [\<lparr>Timestamp = 2, Data = ''a''\<rparr>, \<lparr>Timestamp = 5, Data = ''b''\<rparr>, \<lparr>Timestamp = 10, Data = ''c''\<rparr>]
     \<lparr>FilePath = ''out.csv'', IncludeTimestamps = True, FilterByTime = True,
      StartTime = 9, EndTime = 3, CustomHeader = []\<rparr> =
     (Inr (), Some [header_row \<lparr>FilePath = ''out.csv'', IncludeTimestamps = True, FilterByTime = True,
      StartTime = 9, EndTime = 3, CustomHeader = []\<rparr>])"
    by blast
  then show ?thesis
    using h by (simp add: header_row_def)
qed

section \<open>Properties of the line framer\<close>

lemma IndexByte_neg: "IndexByte bs c < 0 \<longleftrightarrow> c \<notin> set bs"
  by (induction bs) (auto simp: Let_def)

lemma IndexByte_first: "c \<notin> set xs \<Longrightarrow> IndexByte (xs @ c # ys) c = int (length xs)"
  by (induction xs) (auto simp: Let_def)

lemma next_line_None: "next_line p = None \<longleftrightarrow> LF \<notin> set p"
  by (simp add: next_line_def Let_def IndexByte_neg)

lemma next_line_LF:
  "LF \<notin> set d \<Longrightarrow> next_line (d @ LF # rest) =
     Some (if d \<noteq> [] \<and> last d = CR then butlast d else d, rest)"
  by (auto simp: next_line_def Let_def IndexByte_first last_conv_nth butlast_conv_take)


lemma next_line_SomeD:
  assumes "next_line p = Some (l, r)"
  shows "\<exists>d. p = d @ LF # r \<and> LF \<notin> set d \<and>
             l = (if d \<noteq> [] \<and> last d = CR then butlast d else d)"
proof -
  from assms have "LF \<in> set p"
    using next_line_None [of p] by auto
  then obtain d r' where p: "p = d @ LF # r'" and d: "LF \<notin> set d"
    by (auto dest: split_list_first)
  with assms next_line_LF [OF d, of r'] show ?thesis by auto
qed

lemma next_line_append:
  assumes "next_line a = Some (l, r)"
  shows "next_line (a @ b) = Some (l, r @ b)"
proof -
  from next_line_SomeD [OF assms] obtain d where
    a: "a = d @ LF # r" and d: "LF \<notin> set d"
    and l: "l = (if d \<noteq> [] \<and> last d = CR then butlast d else d)"
    by blast
  from next_line_LF [OF d, of "r @ b"] a l show ?thesis by simp
qed

lemma extract_lines_no_LF: "LF \<notin> set p \<Longrightarrow> extract_lines p = ([], p)"
  using next_line_None [of p] by (subst extract_lines.simps) simp

lemma extract_lines_Some:
  "next_line p = Some (l, r) \<Longrightarrow>
   extract_lines p = (l # fst (extract_lines r), snd (extract_lines r))"
  by (subst extract_lines.simps) (simp split: prod.splits)


lemma extract_lines_append:
  "extract_lines (a @ b) =
     (fst (extract_lines a) @ fst (extract_lines (snd (extract_lines a) @ b)),
      snd (extract_lines (snd (extract_lines a) @ b)))"
proof (induction a rule: extract_lines.induct)
  case (1 p)
  show ?case
  proof (cases "next_line p")
    case None
    then have "extract_lines p = ([], p)"
      using next_line_None [of p] extract_lines_no_LF by simp
    then show ?thesis by simp
  next
    case (Some lr)
    obtain l r where lr: "lr = (l, r)" by (cases lr)
    have nl: "next_line p = Some (l, r)" using Some lr by simp
    have ih: "extract_lines (r @ b) =
       (fst (extract_lines r) @ fst (extract_lines (snd (extract_lines r) @ b)),
        snd (extract_lines (snd (extract_lines r) @ b)))"
      using "1.IH" [OF nl refl] .
    show ?thesis
      using extract_lines_Some [OF nl] extract_lines_Some [OF next_line_append [OF nl, of b]] ih
      by simp
  qed
qed





section \<open>Properties of the reader goroutine\<close>

lemma send_lines_None_step:
  "next_line (partial st) = None \<Longrightarrow> send_lines now stop k st = (False, st)"
  by (subst send_lines.simps) simp

lemma send_lines_Some_step:
  "next_line (partial st) = Some (l, r) \<Longrightarrow>
   send_lines now stop k st =
     (if stop = Some k then (True, st\<lparr>partial := r\<rparr>)
      else send_lines now stop (Suc k)
             (st\<lparr>partial := r, sent := sent st @ [\<lparr>Timestamp = now (length (sent st)), Data = l\<rparr>]\<rparr>))"
  by (subst send_lines.simps) (simp add: Let_def)

lemma send_lines_keeps:
  "send_lines now stop k st = (b, st') \<Longrightarrow> errCh st' = errCh st \<and> exited st' = exited st"
proof (induction now stop k st rule: send_lines.induct)
  case (1 now stop k st)
  show ?case
  proof (cases "next_line (partial st)")
    case None
    with "1.prems" show ?thesis by (simp add: send_lines_None_step)
  next
    case (Some lr)
    obtain l r where lr: "lr = (l, r)" by (cases lr)
    have nl: "next_line (partial st) = Some (l, r)" using Some lr by simp
    show ?thesis
    proof (cases "stop = Some k")
      case True
      with "1.prems" nl show ?thesis by (auto simp: send_lines_Some_step)
    next
      case False
      with "1.prems" nl have
        "send_lines now stop (Suc k)
           (st\<lparr>partial := r, sent := sent st @ [\<lparr>Timestamp = now (length (sent st)), Data = l\<rparr>]\<rparr>) = (b, st')"
        by (simp add: send_lines_Some_step)
      from "1.IH" [OF nl refl refl refl False] this show ?thesis by simp
    qed
  qed
qed

lemma send_lines_sent:
  "send_lines now stop k st = (b, st') \<Longrightarrow>
   (\<exists>n. map Data (sent st') = map Data (sent st) @ take n (fst (extract_lines (partial st)))) \<and>
   (\<not> b \<longrightarrow> map Data (sent st') = map Data (sent st) @ fst (extract_lines (partial st)) \<and>
             partial st' = snd (extract_lines (partial st)))"
proof (induction now stop k st rule: send_lines.induct)
  case (1 now stop k st)
  show ?case
  proof (cases "next_line (partial st)")
    case None
    then have "extract_lines (partial st) = ([], partial st)"
      by (subst extract_lines.simps) simp
    with "1.prems" None show ?thesis by (simp add: send_lines_None_step)
  next
    case (Some lr)
    obtain l r where lr: "lr = (l, r)" by (cases lr)
    have nl: "next_line (partial st) = Some (l, r)" using Some lr by simp
    have ex: "extract_lines (partial st) = (l # fst (extract_lines r), snd (extract_lines r))"
      using nl by (subst extract_lines.simps) (simp split: prod.splits)
    show ?thesis
    proof (cases "stop = Some k")
      case True
      with "1.prems" nl have "b" and "sent st' = sent st"
        by (auto simp: send_lines_Some_step)
      then have "map Data (sent st') = map Data (sent st) @ take 0 (fst (extract_lines (partial st)))"
        by simp
      with \<open>b\<close> show ?thesis by blast
    next
      case False
      let ?st1 = "st\<lparr>partial := r, sent := sent st @ [\<lparr>Timestamp = now (length (sent st)), Data = l\<rparr>]\<rparr>"
      from False "1.prems" nl have s: "send_lines now stop (Suc k) ?st1 = (b, st')"
        by (simp add: send_lines_Some_step)
      from "1.IH" [OF nl refl refl refl False] s
      have ih: "(\<exists>n. map Data (sent st') = map Data (sent ?st1) @ take n (fst (extract_lines (partial ?st1)))) \<and>
        (\<not> b \<longrightarrow> map Data (sent st') = map Data (sent ?st1) @ fst (extract_lines (partial ?st1)) \<and>
             partial st' = snd (extract_lines (partial ?st1)))"
        by simp
      then obtain n where
        n: "map Data (sent st') = map Data (sent ?st1) @ take n (fst (extract_lines (partial ?st1)))"
        by blast
      then have "map Data (sent st') = map Data (sent st) @ take (Suc n) (fst (extract_lines (partial st)))"
        by (simp add: ex)
      then have a: "\<exists>n. map Data (sent st') = map Data (sent st) @ take n (fst (extract_lines (partial st)))"
        by blast
      from ih have b: "\<not> b \<longrightarrow> map Data (sent st') = map Data (sent st) @ fst (extract_lines (partial st)) \<and>
             partial st' = snd (extract_lines (partial st))"
        by (simp add: ex)
      from a b show ?thesis by blast
    qed
  qed
qed

lemma send_lines_no_stop: "fst (send_lines now None k st) = False"
proof (induction now "None :: nat option" k st rule: send_lines.induct)
  case (1 now k st)
  show ?case
  proof (cases "next_line (partial st)")
    case None
    then show ?thesis by (simp add: send_lines_None_step)
  next
    case (Some lr)
    obtain l r where lr: "lr = (l, r)" by (cases lr)
    have nl: "next_line (partial st) = Some (l, r)" using Some lr by simp
    from "1.hyps" [OF nl refl refl refl] show ?thesis
      by (simp add: send_lines_Some_step [OF nl])
  qed
qed

text \<open>What the three parts of a round do, for a round that reaches the read.\<close>

lemma iteration_stop_at_top:
  "stop_at_top p \<Longrightarrow> iteration now dev p st = st\<lparr>exited := Some CleanStop\<rparr>"
  by (simp add: iteration_def)

lemma iteration_nil_port:
  "\<not> stop_at_top p \<Longrightarrow> iteration now None p st = st\<lparr>exited := Some NilPanic\<rparr>"
  by (simp add: iteration_def)

lemma iteration_read:
  "\<not> stop_at_top p \<Longrightarrow>
   iteration now (Some h) p st =
     (let st1 = snd (frame_and_send now p st) in
      if fst (frame_and_send now p st) then st1\<lparr>exited := Some CleanStop\<rparr>
      else (case read_err p of
              None \<Rightarrow> st1
            | Some e \<Rightarrow>
                (if stop_at_err p then st1\<lparr>exited := Some CleanStop\<rparr>
                 else st1\<lparr>errCh := errCh st1 @ [e], exited := Some (Fault e)\<rparr>)))"
  by (cases "frame_and_send now p st") (auto simp: iteration_def split: option.splits)

lemma frame_and_send_keeps:
  "errCh (snd (frame_and_send now p st)) = errCh st \<and> exited (snd (frame_and_send now p st)) = exited st"
proof (cases "frame_and_send now p st")
  case (Pair b st1)
  then show ?thesis
    using send_lines_keeps [of now "stop_at_send p" 0 "st\<lparr>partial := partial st @ read_data p\<rparr>" b st1]
    by (auto simp: frame_and_send_def split: if_splits)
qed

lemma frame_and_send_sent:
  "(\<exists>n. map Data (sent (snd (frame_and_send now p st))) =
         map Data (sent st) @ take n (fst (extract_lines (partial st @ read_data p)))) \<and>
   (\<not> fst (frame_and_send now p st) \<longrightarrow>
      (read_data p = [] \<and> snd (frame_and_send now p st) = st) \<or>
      (map Data (sent (snd (frame_and_send now p st))) =
         map Data (sent st) @ fst (extract_lines (partial st @ read_data p)) \<and>
       partial (snd (frame_and_send now p st)) = snd (extract_lines (partial st @ read_data p))))"
proof (cases "read_data p = []")
  case True
  then have "frame_and_send now p st = (False, st)" by (simp add: frame_and_send_def)
  moreover have "map Data (sent st) = map Data (sent st) @ take 0 (fst (extract_lines (partial st @ read_data p)))"
    by simp
  ultimately show ?thesis using True by (metis fst_conv snd_conv)
next
  case False
  obtain b st1 where s: "send_lines now (stop_at_send p) 0 (st\<lparr>partial := partial st @ read_data p\<rparr>) = (b, st1)"
    by (cases "send_lines now (stop_at_send p) 0 (st\<lparr>partial := partial st @ read_data p\<rparr>)")
  with False have a: "frame_and_send now p st = (b, st1)" by (simp add: frame_and_send_def)
  from send_lines_sent [OF s] show ?thesis by (simp add: a)
qed

lemma frame_and_send_no_stop: "stop_at_send p = None \<Longrightarrow> \<not> fst (frame_and_send now p st)"
  by (simp add: frame_and_send_def send_lines_no_stop)

lemma iteration_running:
  assumes "exited (iteration now dev p st) = None"
  shows "errCh (iteration now dev p st) = errCh st \<and> exited st = None"
proof (cases "stop_at_top p")
  case True
  with assms show ?thesis by (simp add: iteration_stop_at_top)
next
  case False
  show ?thesis
  proof (cases dev)
    case None
    with False assms show ?thesis by (simp add: iteration_nil_port)
  next
    case (Some h)
    with False assms frame_and_send_keeps [of now p st] show ?thesis
      by (auto simp: iteration_read Let_def split: if_splits option.splits)
  qed
qed

lemma iteration_errCh:
  assumes "exited st = None"
  shows "errCh (iteration now dev p st) =
           (case exited (iteration now dev p st) of
              Some (Fault e) \<Rightarrow> errCh st @ [e]
            | _ \<Rightarrow> errCh st)"
proof (cases "stop_at_top p")
  case True
  then show ?thesis by (simp add: iteration_stop_at_top)
next
  case False
  show ?thesis
  proof (cases dev)
    case None
    with False show ?thesis by (simp add: iteration_nil_port)
  next
    case (Some h)
    with False assms frame_and_send_keeps [of now p st] show ?thesis
      by (auto simp: iteration_read Let_def split: if_splits option.splits)
  qed
qed

lemma reader_loop_Cons_running:
  "exited (iteration now dev p st) = None \<Longrightarrow>
   reader_loop now dev (p # ps) st = reader_loop now dev ps (iteration now dev p st)"
  by (simp add: Let_def)

lemma reader_loop_Cons_exited:
  "exited (iteration now dev p st) \<noteq> None \<Longrightarrow>
   reader_loop now dev (p # ps) st = iteration now dev p st"
  by (simp add: Let_def)

declare reader_loop.simps(2) [simp del]

lemma reader_loop_errCh:
  "exited st = None \<Longrightarrow>
   errCh (reader_loop now dev script st) =
     (case exited (reader_loop now dev script st) of
        Some (Fault e) \<Rightarrow> errCh st @ [e]
      | _ \<Rightarrow> errCh st)"
proof (induction script arbitrary: st)
  case Nil
  then show ?case by simp
next
  case (Cons p ps)
  show ?case
  proof (cases "exited (iteration now dev p st) = None")
    case True
    with Cons.IH [OF True] iteration_running [OF True] show ?thesis
      by (simp add: reader_loop_Cons_running split: option.splits reader_exit.splits)
  next
    case False
    with iteration_errCh [OF Cons.prems] show ?thesis
      by (simp add: reader_loop_Cons_exited)
  qed
qed

lemma reader_loop_append:
  "exited (reader_loop now dev pre st) = None \<Longrightarrow>
   reader_loop now dev (pre @ rest) st = reader_loop now dev rest (reader_loop now dev pre st)"
proof (induction pre arbitrary: st)
  case Nil
  then show ?case by simp
next
  case (Cons p ps)
  show ?case
  proof (cases "exited (iteration now dev p st) = None")
    case True
    with Cons show ?thesis by (simp add: reader_loop_Cons_running)
  next
    case False
    with Cons.prems show ?thesis by (simp add: reader_loop_Cons_exited)
  qed
qed

lemma reader_loop_running_errCh:
  "exited (reader_loop now dev script st) = None \<Longrightarrow>
   errCh (reader_loop now dev script st) = errCh st"
proof (induction script arbitrary: st)
  case Nil
  then show ?case by simp
next
  case (Cons p ps)
  show ?case
  proof (cases "exited (iteration now dev p st) = None")
    case True
    with Cons iteration_running [OF True] show ?thesis by (simp add: reader_loop_Cons_running)
  next
    case False
    with Cons.prems show ?thesis by (simp add: reader_loop_Cons_exited)
  qed
qed

text \<open>
  Claim C5. Take a run that is still in its loop after the polls \<open>pre\<close>, and a next round
  \<open>p\<close> that reaches the read, gets the error \<open>e\<close> from it and is not stopped while
  sending, so that the error is inspected. If the stop signal is raised at the inspection
  the task exits cleanly and the error channel stays empty; otherwise the task exits
  faulted and the error channel holds \<open>e\<close>, once. Nothing but the stop signal decides
  between the two. For every run, the error channel holds the fault the task exited with,
  and nothing when it did not exit faulted.
\<close>

theorem read_error_inspection:
  assumes "exited (reader_task now (Some h) pre) = None"
    and "\<not> stop_at_top p" and "read_err p = Some e" and "stop_at_send p = None"
  shows "exited (reader_task now (Some h) (pre @ p # rest)) =
           Some (if stop_at_err p then CleanStop else Fault e) \<and>
         errCh (reader_task now (Some h) (pre @ p # rest)) =
           (if stop_at_err p then [] else [e]) \<and>
         errCh (reader_task now dev script) =
           (case exited (reader_task now dev script) of
              Some (Fault e') \<Rightarrow> [e']
            | _ \<Rightarrow> [])"
proof -
  let ?init = "\<lparr>partial = [], sent = [], errCh = [], exited = None\<rparr>"
  let ?mid = "reader_loop now (Some h) pre ?init"
  have run: "exited ?mid = None" using assms(1) by (simp add: reader_task_def)
  then have e0: "errCh ?mid = []"
    using reader_loop_running_errCh [of now "Some h" pre ?init] by simp
  have e1: "errCh (snd (frame_and_send now p ?mid)) = []"
    using frame_and_send_keeps [of now p ?mid] e0 by simp
  have it: "iteration now (Some h) p ?mid =
      (if stop_at_err p then (snd (frame_and_send now p ?mid))\<lparr>exited := Some CleanStop\<rparr>
       else (snd (frame_and_send now p ?mid))\<lparr>errCh := errCh (snd (frame_and_send now p ?mid)) @ [e],
               exited := Some (Fault e)\<rparr>)"
    using assms(2,3) frame_and_send_no_stop [OF assms(4), of now ?mid]
    by (simp add: iteration_read Let_def)
  then have ex: "exited (iteration now (Some h) p ?mid) \<noteq> None" by simp
  have "reader_task now (Some h) (pre @ p # rest) = reader_loop now (Some h) (p # rest) ?mid"
    unfolding reader_task_def using run by (rule reader_loop_append)
  also have "\<dots> = iteration now (Some h) p ?mid"
    using ex by (rule reader_loop_Cons_exited)
  finally have r: "reader_task now (Some h) (pre @ p # rest) = iteration now (Some h) p ?mid" .
  have a: "exited (reader_task now (Some h) (pre @ p # rest)) =
           Some (if stop_at_err p then CleanStop else Fault e)"
    unfolding r it by simp
  have b: "errCh (reader_task now (Some h) (pre @ p # rest)) = (if stop_at_err p then [] else [e])"
    unfolding r it using e1 by simp
  have c: "errCh (reader_task now dev script) =
           (case exited (reader_task now dev script) of
              Some (Fault e') \<Rightarrow> [e']
            | _ \<Rightarrow> [])"
    using reader_loop_errCh [of ?init now dev script]
    by (simp add: reader_task_def split: option.splits reader_exit.splits)
  from a b c show ?thesis by simp
qed

lemma reader_loop_sent:
  "\<exists>k. map Data (sent (reader_loop now dev script st)) =
        map Data (sent st) @
        take k (fst (extract_lines (partial st @ concat (map read_data script))))"
proof (induction script arbitrary: st)
  case Nil
  show ?case by (intro exI [of _ 0]) simp
next
  case (Cons p ps)
  let ?all = "fst (extract_lines (partial st @ concat (map read_data (p # ps))))"
  let ?one = "fst (extract_lines (partial st @ read_data p))"
  let ?st1 = "snd (frame_and_send now p st)"
  have split: "?all = ?one @
      fst (extract_lines (snd (extract_lines (partial st @ read_data p)) @ concat (map read_data ps)))"
    using extract_lines_append [of "partial st @ read_data p" "concat (map read_data ps)"]
    by simp
  have early: "\<exists>k. map Data (sent st) @ take n ?one = map Data (sent st) @ take k ?all" for n
  proof -
    have "take n ?one = take (min n (length ?one)) ?all"
      unfolding split by (simp add: min_def)
    then show ?thesis by metis
  qed
  have none: "\<exists>k. map Data (sent st) = map Data (sent st) @ take k ?all"
  proof -
    have "map Data (sent st) = map Data (sent st) @ take 0 ?all" by simp
    then show ?thesis by blast
  qed
  obtain n where n: "map Data (sent ?st1) = map Data (sent st) @ take n ?one"
    using frame_and_send_sent [of now p st] by blast
  show ?case
  proof (cases "exited (iteration now dev p st) = None")
    case False
    then have r: "reader_loop now dev (p # ps) st = iteration now dev p st"
      by (rule reader_loop_Cons_exited)
    have "sent (iteration now dev p st) = sent st \<or> sent (iteration now dev p st) = sent ?st1"
      by (cases "stop_at_top p"; cases dev)
         (auto simp: iteration_stop_at_top iteration_nil_port iteration_read Let_def
               split: option.splits)
    then show ?thesis
      unfolding r using none early [of n] n by auto
  next
    case True
    then have r: "reader_loop now dev (p # ps) st = reader_loop now dev ps (iteration now dev p st)"
      by (rule reader_loop_Cons_running)
    from True obtain h where dev: "dev = Some h" and top: "\<not> stop_at_top p"
      by (cases "stop_at_top p"; cases dev)
         (auto simp: iteration_stop_at_top iteration_nil_port)
    from True have it: "iteration now dev p st = ?st1" and ns: "\<not> fst (frame_and_send now p st)"
      unfolding dev using top
      by (auto simp: iteration_read Let_def split: if_splits option.splits)
    from Cons.IH [of ?st1] obtain k where
      k: "map Data (sent (reader_loop now dev ps ?st1)) =
          map Data (sent ?st1) @
          take k (fst (extract_lines (partial ?st1 @ concat (map read_data ps))))"
      by blast
    from frame_and_send_sent [of now p st] ns
    consider (idle) "read_data p = []" "?st1 = st"
      | (framed) "map Data (sent ?st1) = map Data (sent st) @ ?one"
                 "partial ?st1 = snd (extract_lines (partial st @ read_data p))"
      by blast
    then show ?thesis
    proof cases
      case idle
      with k show ?thesis unfolding r it by auto
    next
      case framed
      have "map Data (sent (reader_loop now dev ps ?st1)) =
            map Data (sent st) @ take (length ?one + k) ?all"
        using k framed unfolding split by simp
      then show ?thesis unfolding r it by blast
    qed
  qed
qed

text \<open>
  Claim C7. When accumulator and chunk hold no line feed, the framer yields no line and
  keeps all the bytes. Whatever a run of the reader does and however it ends, the lines it
  has sent are the first few of the terminated lines of the bytes it was given: the bytes
  after the last line feed are never sent as a line, and when there is no line feed at all
  nothing is sent.
\<close>

theorem unterminated_bytes_never_emitted:
  "(LF \<notin> set (acc @ chunk) \<longrightarrow> frame acc chunk = ([], acc @ chunk)) \<and>
   (\<exists>k. map Data (sent (reader_task now dev script)) =
         take k (fst (extract_lines (concat (map read_data script))))) \<and>
   (LF \<notin> set (concat (map read_data script)) \<longrightarrow> sent (reader_task now dev script) = [])"
proof -
  have a: "LF \<notin> set (acc @ chunk) \<longrightarrow> frame acc chunk = ([], acc @ chunk)"
    by (simp add: frame_def extract_lines_no_LF)
  have b: "\<exists>k. map Data (sent (reader_task now dev script)) =
         take k (fst (extract_lines (concat (map read_data script))))"
    using reader_loop_sent [of now dev script "\<lparr>partial = [], sent = [], errCh = [], exited = None\<rparr>"]
    by (simp add: reader_task_def)
  have c: "sent (reader_task now dev script) = []"
    if "LF \<notin> set (concat (map read_data script))"
  proof -
    from that have "fst (extract_lines (concat (map read_data script))) = []"
      by (simp add: extract_lines_no_LF)
    with b show ?thesis by simp
  qed
  from a b c show ?thesis by blast
qed

lemmas reader_eval =
  reader_task_def reader_loop.simps iteration_def frame_and_send_def send_lines.simps
  next_line_def
  LF_def CR_def Let_def

theorem unterminated_bytes_never_emitted_witness:
  "LF \<notin> set (''ab'' @ ''cd'') \<and> frame ''ab'' ''cd'' = ([], ''abcd'') \<and>
   LF \<notin> set (concat (map read_data
     [\<lparr>stop_at_top = False, read_data = ''abc'', read_err = None,
       stop_at_send = None, stop_at_err = False\<rparr>,
      \<lparr>stop_at_top = False, read_data = ''de'', read_err = Some ''EIO'',
       stop_at_send = None, stop_at_err = False\<rparr>])) \<and>
   reader_task (\<lambda>i. int i) (Some 0)
     [\<lparr>stop_at_top = False, read_data = ''abc'', read_err = None,
       stop_at_send = None, stop_at_err = False\<rparr>,
      \<lparr>stop_at_top = False, read_data = ''de'', read_err = Some ''EIO'',
       stop_at_send = None, stop_at_err = False\<rparr>] =
   \<lparr>partial = ''abcde'', sent = [], errCh = [''EIO''], exited = Some (Fault ''EIO'')\<rparr>"
proof -
  have h1: "LF \<notin> set (''ab'' @ ''cd'')" by (simp add: LF_def)
  have h2: "LF \<notin> set (concat (map read_data
     [\<lparr>stop_at_top = False, read_data = ''abc'', read_err = None,
       stop_at_send = None, stop_at_err = False\<rparr>,
      \<lparr>stop_at_top = False, read_data = ''de'', read_err = Some ''EIO'',
       stop_at_send = None, stop_at_err = False\<rparr>]))"
    by (simp add: LF_def)
  have run: "reader_task (\<lambda>i. int i) (Some 0)
     [\<lparr>stop_at_top = False, read_data = ''abc'', read_err = None,
       stop_at_send = None, stop_at_err = False\<rparr>,
      \<lparr>stop_at_top = False, read_data = ''de'', read_err = Some ''EIO'',
       stop_at_send = None, stop_at_err = False\<rparr>] =
   \<lparr>partial = ''abcde'', sent = ss, errCh = [''EIO''], exited = Some (Fault ''EIO'')\<rparr>"
    if "sent (reader_task (\<lambda>i. int i) (Some 0)
     [\<lparr>stop_at_top = False, read_data = ''abc'', read_err = None,
       stop_at_send = None, stop_at_err = False\<rparr>,
      \<lparr>stop_at_top = False, read_data = ''de'', read_err = Some ''EIO'',
       stop_at_send = None, stop_at_err = False\<rparr>]) = ss" for ss
    using that by (simp add: reader_eval)
  from unterminated_bytes_never_emitted [of "''ab''" "''cd''" "\<lambda>i. int i" "Some 0"
     "[\<lparr>stop_at_top = False, read_data = ''abc'', read_err = None,
       stop_at_send = None, stop_at_err = False\<rparr>,
      \<lparr>stop_at_top = False, read_data = ''de'', read_err = Some ''EIO'',
       stop_at_send = None, stop_at_err = False\<rparr>]"] h1 h2
  have "frame ''ab'' ''cd'' = ([], ''ab'' @ ''cd'')"
    and "sent (reader_task (\<lambda>i. int i) (Some 0)
     [\<lparr>stop_at_top = False, read_data = ''abc'', read_err = None,
       stop_at_send = None, stop_at_err = False\<rparr>,
      \<lparr>stop_at_top = False, read_data = ''de'', read_err = Some ''EIO'',
       stop_at_send = None, stop_at_err = False\<rparr>]) = []"
    by blast+
  with h1 h2 run show ?thesis by simp
qed

theorem read_error_inspection_witness:
  "exited (reader_task (\<lambda>i. int i) (Some 0)
     [\<lparr>stop_at_top = False, read_data = ''a'' @ [LF], read_err = None,
       stop_at_send = None, stop_at_err = False\<rparr>]) = None \<and>
   \<not> stop_at_top \<lparr>stop_at_top = False, read_data = ''b'', read_err = Some ''EIO'',
       stop_at_send = None, stop_at_err = False\<rparr> \<and>
   exited (reader_task (\<lambda>i. int i) (Some 0)
     ([\<lparr>stop_at_top = False, read_data = ''a'' @ [LF], read_err = None,
        stop_at_send = None, stop_at_err = False\<rparr>] @
      \<lparr>stop_at_top = False, read_data = ''b'', read_err = Some ''EIO'',
        stop_at_send = None, stop_at_err = False\<rparr> # [])) = Some (Fault ''EIO'') \<and>
   errCh (reader_task (\<lambda>i. int i) (Some 0)
     ([\<lparr>stop_at_top = False, read_data = ''a'' @ [LF], read_err = None,
        stop_at_send = None, stop_at_err = False\<rparr>] @
      \<lparr>stop_at_top = False, read_data = ''b'', read_err = Some ''EIO'',
        stop_at_send = None, stop_at_err = False\<rparr> # [])) = [''EIO'']"
proof -
  have h1: "exited (reader_task (\<lambda>i. int i) (Some 0)
     [\<lparr>stop_at_top = False, read_data = ''a'' @ [LF], read_err = None,
       stop_at_send = None, stop_at_err = False\<rparr>]) = None"
    by (simp add: reader_eval)
  have h2: "\<not> stop_at_top \<lparr>stop_at_top = False, read_data = ''b'', read_err = Some ''EIO'',
       stop_at_send = None, stop_at_err = False\<rparr>"
    by simp
  have h3: "read_err \<lparr>stop_at_top = False, read_data = ''b'', read_err = Some ''EIO'',
       stop_at_send = None, stop_at_err = False\<rparr> = Some ''EIO''"
    by simp
  have h4: "stop_at_send \<lparr>stop_at_top = False, read_data = ''b'', read_err = Some ''EIO'',
       stop_at_send = None, stop_at_err = False\<rparr> = None"
    by simp
  from read_error_inspection [OF h1 h2 h3 h4, where rest = "[]" and dev = "Some 0" and script = "[]"] h1 h2
  show ?thesis by simp
qed

section \<open>Properties of the serial manager\<close>

lemmas world_eval =
  StartReading_def make_chan_def close_chan_def chan_closed_def stopReader_begin_def
  wait_over_def close_port_def Disconnect_finish_def Connect_finish_def reader_return_def
  send_on_def world0_def NewSerialManager_def Let_def


text \<open>
  The guarded branch: a call of \<open>StartReading\<close> while the flag \<open>running\<close> is set returns
  two fresh channels that are closed and empty, and changes nothing else: the stop and done
  channels, the flag and the list of readers are as before.
\<close>

lemma StartReading_while_running:
  assumes "running (sm w)"
  shows "StartReading w =
           ((length (chans w), Suc (length (chans w))),
            w\<lparr>chans := chans w @ [\<lparr>is_closed = True, buffered = []\<rparr>,
                                   \<lparr>is_closed = True, buffered = []\<rparr>]\<rparr>)"
  using assms
  by (simp add: StartReading_def make_chan_def close_chan_def nth_append list_update_append)


lemma StartReading_while_running_example:
  "running (sm (snd (StartReading (finish (InConnect ''COM3'' 9600) (Inr 7) world0)))) \<and>
   StartReading (snd (StartReading (finish (InConnect ''COM3'' 9600) (Inr 7) world0))) =
     ((4, 5),
      \<lparr>sm = \<lparr>port = Some 7, portName = ''COM3'', baudRate = 9600, running = True,
              stopCh = Some 2, doneCh = Some 3\<rparr>,
       chans = [\<lparr>is_closed = False, buffered = []\<rparr>, \<lparr>is_closed = False, buffered = []\<rparr>,
                \<lparr>is_closed = False, buffered = []\<rparr>, \<lparr>is_closed = False, buffered = []\<rparr>,
                \<lparr>is_closed = True, buffered = []\<rparr>, \<lparr>is_closed = True, buffered = []\<rparr>],
       readers = [\<lparr>r_port = Some 7, r_ch = 0, r_errCh = 1, r_done = Some 3, r_active = True\<rparr>],
       waiting = [], closed_ports = [], panicked = False\<rparr>)"
proof -
  have w: "snd (StartReading (finish (InConnect ''COM3'' 9600) (Inr 7) world0)) =
      \<lparr>sm = \<lparr>port = Some 7, portName = ''COM3'', baudRate = 9600, running = True,
              stopCh = Some 2, doneCh = Some 3\<rparr>,
       chans = [\<lparr>is_closed = False, buffered = []\<rparr>, \<lparr>is_closed = False, buffered = []\<rparr>,
                \<lparr>is_closed = False, buffered = []\<rparr>, \<lparr>is_closed = False, buffered = []\<rparr>],
       readers = [\<lparr>r_port = Some 7, r_ch = 0, r_errCh = 1, r_done = Some 3, r_active = True\<rparr>],
       waiting = [], closed_ports = [], panicked = False\<rparr>"
    by (simp add: world_eval)
  have h: "running (sm (snd (StartReading (finish (InConnect ''COM3'' 9600) (Inr 7) world0))))"
    unfolding w by simp
  show ?thesis
    using h StartReading_while_running [OF h] unfolding w by simp
qed

lemma reader_step_sm: "reader_step w w' \<Longrightarrow> sm w' = sm w"
  by (induction rule: reader_step.induct)
     (auto simp: reader_return_def close_chan_def send_on_def Let_def split: option.splits)

lemma reader_steps_sm: "reader_step\<^sup>*\<^sup>* w w' \<Longrightarrow> sm w' = sm w"
  by (induction rule: rtranclp_induct) (auto dest: reader_step_sm)

lemma stopReader_begin_Returned:
  "stopReader_begin w = (Returned, w1) \<longleftrightarrow> \<not> running (sm w) \<and> w1 = w"
  by (auto simp: stopReader_begin_def Let_def)

lemma stopReader_begin_Waiting:
  "stopReader_begin w = (Waiting d, w1) \<Longrightarrow> \<not> running (sm w1)"
  by (auto simp: stopReader_begin_def Let_def split: if_splits)

lemma close_port_sm:
  "port (sm (close_port w)) = None \<and> running (sm (close_port w)) = running (sm w)"
  by (simp add: close_port_def split: option.splits)

lemma close_port_idem: "port (sm w) = None \<Longrightarrow> close_port w = w"
  by (simp add: close_port_def)

lemma Disconnect_call_result:
  assumes "Disconnect_call w w1"
  shows "port (sm w1) = None \<and> \<not> running (sm w1)"
  using assms
proof cases
  case (Disconnect_idle w0)
  then show ?thesis
    by (simp add: stopReader_begin_Returned Disconnect_finish_def close_port_sm)
next
  case (Disconnect_join d wa wb)
  from stopReader_begin_Waiting [OF Disconnect_join(2)] reader_steps_sm [OF Disconnect_join(3)]
  have "\<not> running (sm wb)" by simp
  with Disconnect_join(1) show ?thesis
    by (simp add: Disconnect_finish_def close_port_sm)
qed

lemma close_chan_readers: "readers (close_chan c w) = readers w \<and> sm (close_chan c w) = sm w"
  by (simp add: close_chan_def split: option.splits)

lemma close_chan_length: "length (chans (close_chan c w)) = length (chans w)"
  by (simp add: close_chan_def split: option.splits)

lemma close_chan_other:
  "c \<noteq> Some d \<Longrightarrow> is_closed (chans (close_chan c w) ! d) = is_closed (chans w ! d)"
  by (auto simp: close_chan_def nth_list_update split: option.splits)

lemma send_on_keeps:
  "readers (send_on c m w) = readers w \<and> sm (send_on c m w) = sm w \<and>
   length (chans (send_on c m w)) = length (chans w) \<and>
   is_closed (chans (send_on c m w) ! d) = is_closed (chans w ! d)"
  by (cases "c < length (chans w)") (auto simp: send_on_def nth_list_update list_update_beyond)

lemma reader_return_readers:
  "readers (reader_return i w) = (readers w)[i := (readers w ! i)\<lparr>r_active := False\<rparr>] \<and>
   sm (reader_return i w) = sm w"
  by (simp add: reader_return_def Let_def close_chan_readers)

lemma no_active_nth: "no_active w \<longleftrightarrow> (\<forall>i < length (readers w). \<not> r_active (readers w ! i))"
  unfolding no_active_def by (metis in_set_conv_nth)

lemma no_active_joinable: "no_active w \<Longrightarrow> joinable w"
  by (simp add: no_active_nth joinable_def)

lemma no_active_quiet:
  assumes "no_active w"
  shows "quiet w"
  unfolding quiet_def
  using no_active_joinable [OF assms] assms [unfolded no_active_nth] by simp

lemma return_no_active:
  assumes "joinable w" and "i < length (readers w)" and "r_active (readers w ! i)"
    and "readers w' = (readers w)[i := (readers w ! i)\<lparr>r_active := False\<rparr>]"
  shows "no_active w'"
  unfolding no_active_nth
proof (intro allI impI)
  fix j assume j: "j < length (readers w')"
  show "\<not> r_active (readers w' ! j)"
  proof (cases "j = i")
    case True
    with assms(2,4) show ?thesis by simp
  next
    case False
    with assms j have "\<not> r_active (readers w ! j)"
      by (auto simp: joinable_def)
    with False assms(4) show ?thesis by simp
  qed
qed

lemma reader_step_cases:
  assumes "reader_step w w'" and "joinable w"
  shows "sm w' = sm w \<and>
         (no_active w' \<or>
          (readers w' = readers w \<and> length (chans w') = length (chans w) \<and>
           (\<forall>d. is_closed (chans w' ! d) = is_closed (chans w ! d))))"
  using assms(1)
proof cases
  case (r_stop i)
  with return_no_active [OF assms(2), of i w'] show ?thesis
    by (simp add: reader_return_readers)
next
  case (r_fault i h e)
  have "joinable (send_on (r_errCh (readers w ! i)) (Err e) w)"
    using assms(2) by (simp add: joinable_def send_on_keeps)
  from return_no_active [OF this, of i w'] r_fault show ?thesis
    by (simp add: reader_return_readers send_on_keeps)
next
  case (r_send i h l)
  then show ?thesis by (simp add: send_on_keeps)
next
  case (r_nil i)
  with return_no_active [OF assms(2), of i w'] show ?thesis
    by (simp add: reader_return_readers)
qed

lemma reader_step_joinable:
  assumes "reader_step w w'" and "joinable w"
  shows "joinable w'"
proof (cases "no_active w'")
  case True
  then show ?thesis by (rule no_active_joinable)
next
  case False
  with reader_step_cases [OF assms] have
    "sm w' = sm w" "readers w' = readers w" "length (chans w') = length (chans w)"
    "\<forall>d. is_closed (chans w' ! d) = is_closed (chans w ! d)"
    by simp_all
  with assms(2) show ?thesis by (simp add: joinable_def)
qed

lemma reader_step_quiet:
  assumes "reader_step w w'" and "quiet w"
  shows "quiet w'"
proof (cases "no_active w'")
  case True
  then show ?thesis by (rule no_active_quiet)
next
  case False
  from assms(2) have j: "joinable w" by (simp add: quiet_def)
  from False reader_step_cases [OF assms(1) j] have
    "sm w' = sm w" "readers w' = readers w"
    by simp_all
  with reader_step_joinable [OF assms(1) j] assms(2) show ?thesis
    by (simp add: quiet_def)
qed

lemma reader_steps_joinable:
  "reader_step\<^sup>*\<^sup>* w w' \<Longrightarrow> joinable w \<Longrightarrow> joinable w'"
  by (induction rule: rtranclp_induct) (auto intro: reader_step_joinable)

lemma joined_no_active:
  assumes "joinable w" and "wait_over w (doneCh (sm w))"
  shows "no_active w"
  using assms
  by (auto simp: no_active_nth joinable_def wait_over_def chan_closed_def split: option.splits)

lemma stopReader_begin_joinable:
  assumes "quiet w" and "stopReader_begin w = (Waiting d, w1)"
  shows "joinable w1 \<and> d = doneCh (sm w1)"
proof -
  from assms(2) have run: "running (sm w)"
    and w1: "w1 = (close_chan (stopCh (sm w)) w)\<lparr>sm := (sm w)\<lparr>running := False\<rparr>\<rparr>"
    and d: "d = doneCh (sm w)"
    by (auto simp: stopReader_begin_def Let_def close_chan_readers split: if_splits)
  have "joinable w1"
    unfolding joinable_def
  proof (intro conjI allI impI)
    fix i j assume "i < length (readers w1)" "j < length (readers w1)"
      "r_active (readers w1 ! i)" "r_active (readers w1 ! j)"
    with assms(1) show "i = j"
      by (simp add: w1 close_chan_readers quiet_def joinable_def)
  next
    fix i assume i: "i < length (readers w1)" "r_active (readers w1 ! i)"
    with assms(1) obtain c where c: "doneCh (sm w) = Some c" "c < length (chans w)"
      "\<not> is_closed (chans w ! c)" and ne: "stopCh (sm w) \<noteq> doneCh (sm w)"
      by (auto simp: w1 close_chan_readers quiet_def joinable_def)
    from ne c(1) have "stopCh (sm w) \<noteq> Some c" by simp
    from close_chan_other [OF this, of w] c
    show "\<exists>d. doneCh (sm w1) = Some d \<and> d < length (chans w1) \<and> \<not> is_closed (chans w1 ! d)"
      by (simp add: w1 close_chan_length)
  qed
  with d show ?thesis by (simp add: w1)
qed

lemma join_no_active:
  assumes "quiet w" and "stopReader_begin w = (Waiting d, w1)"
    and "reader_step\<^sup>*\<^sup>* w1 w2" and "wait_over w2 d"
  shows "no_active w2"
proof -
  from stopReader_begin_joinable [OF assms(1,2)]
  have j: "joinable w1" and d: "d = doneCh (sm w1)" by simp_all
  from reader_steps_joinable [OF assms(3) j] have "joinable w2" .
  moreover from reader_steps_sm [OF assms(3)] d assms(4)
  have "wait_over w2 (doneCh (sm w2))" by simp
  ultimately show ?thesis by (rule joined_no_active)
qed

lemma idle_no_active:
  assumes "quiet w" and "stopReader_begin w = (Returned, w1)"
  shows "no_active w1"
  using assms
  by (auto simp: stopReader_begin_def Let_def quiet_def no_active_nth split: if_splits)

lemma close_port_no_active: "no_active w \<Longrightarrow> no_active (close_port w)"
  by (simp add: close_port_def no_active_def split: option.splits)

lemma Connect_finish_no_active:
  "no_active w \<Longrightarrow> no_active (snd (Connect_finish name baud opened w))"
  using close_port_no_active [of w]
  by (simp add: Connect_finish_def Let_def no_active_def split: sum.splits)

lemma Disconnect_call_no_active:
  assumes "quiet w" and "Disconnect_call w w'"
  shows "no_active w'"
  using assms(2)
proof cases
  case (Disconnect_idle w1)
  with idle_no_active [OF assms(1)] show ?thesis
    by (simp add: Disconnect_finish_def close_port_no_active)
next
  case (Disconnect_join d w1 w2)
  with join_no_active [OF assms(1)] show ?thesis
    by (simp add: Disconnect_finish_def close_port_no_active)
qed

lemma Connect_call_no_active:
  assumes "quiet w" and "Connect_call name baud opened w w'"
  shows "no_active w'"
  using assms(2)
proof cases
  case (Connect_idle w1)
  with idle_no_active [OF assms(1)] show ?thesis
    by (simp add: Connect_finish_no_active)
next
  case (Connect_join d w1 w2)
  with join_no_active [OF assms(1)] show ?thesis
    by (simp add: Connect_finish_no_active)
qed

lemma StartReading_quiet:
  assumes "quiet w"
  shows "quiet (snd (StartReading w))"
proof (cases "running (sm w)")
  case True
  have "snd (StartReading w) =
          w\<lparr>chans := chans w @ [\<lparr>is_closed = True, buffered = []\<rparr>,
                                 \<lparr>is_closed = True, buffered = []\<rparr>]\<rparr>"
    using True
    by (simp add: StartReading_def make_chan_def close_chan_def nth_append list_update_append)
  with assms show ?thesis
    by (auto simp: quiet_def joinable_def nth_append)
next
  case False
  with assms have none: "\<forall>i < length (readers w). \<not> r_active (readers w ! i)"
    by (auto simp: quiet_def)
  have eq: "snd (StartReading w) =
            w\<lparr>chans := chans w @ replicate 4 \<lparr>is_closed = False, buffered = []\<rparr>,
              sm := (sm w)\<lparr>stopCh := Some (length (chans w) + 2),
                           doneCh := Some (length (chans w) + 3), running := True\<rparr>,
              readers := readers w @
                [\<lparr>r_port = port (sm w), r_ch = length (chans w), r_errCh = Suc (length (chans w)),
                  r_done = Some (length (chans w) + 3), r_active = True\<rparr>]\<rparr>"
    using False by (simp add: StartReading_def make_chan_def numeral_eq_Suc)
  show ?thesis
    unfolding eq quiet_def joinable_def using none
    by (auto simp: nth_append less_Suc_eq)
qed

text \<open>
  A single caller never has two readers: every state it can bring about is quiet, so at
  most one reader is active in it.
\<close>

lemma sequential_quiet: "sequential w \<Longrightarrow> quiet w"
proof (induction rule: sequential.induct)
  case seq_init
  show ?case by (simp add: quiet_def joinable_def world0_def)
next
  case (seq_StartReading w)
  then show ?case by (simp add: StartReading_quiet)
next
  case (seq_Disconnect w w')
  then show ?case by (simp add: Disconnect_call_no_active no_active_quiet)
next
  case (seq_Connect w name baud opened w')
  then show ?case by (auto dest: Connect_call_no_active intro: no_active_quiet)
next
  case (seq_reader w w')
  then show ?case by (simp add: reader_step_quiet)
qed

lemma sequential_one_reader:
  "sequential w \<Longrightarrow> length (filter r_active (readers w)) \<le> 1"
proof -
  assume "sequential w"
  then have u: "\<forall>i < length (readers w). \<forall>j < length (readers w).
         r_active (readers w ! i) \<longrightarrow> r_active (readers w ! j) \<longrightarrow> i = j"
    using sequential_quiet by (simp add: quiet_def joinable_def)
  show ?thesis
  proof (rule ccontr)
    assume "\<not> length (filter r_active (readers w)) \<le> 1"
    then have "2 \<le> length (filter r_active (readers w))" by simp
    then obtain a b rest where f: "filter r_active (readers w) = a # b # rest"
      by (cases "filter r_active (readers w)"; cases "tl (filter r_active (readers w))") auto
    from filter_eq_ConsD [OF f] obtain us vs where
      1: "readers w = us @ a # vs" "r_active a" "b # rest = filter r_active vs"
      by blast
    from filter_eq_ConsD [OF 1(3) [symmetric]] obtain xs ys where
      2: "vs = xs @ b # ys" "r_active b"
      by blast
    let ?i = "length us" and ?j = "length us + 1 + length xs"
    have "?i < length (readers w)" "?j < length (readers w)"
      "readers w ! ?i = a" "readers w ! ?j = b"
      using 1(1) 2(1) by (auto simp: nth_append)
    with u 1(2) 2(2) have "?i = ?j" by metis
    then show False by simp
  qed
qed

text \<open>
  A caller that is alone: after its call of \<open>Disconnect\<close> the port is cleared and the flag
  \<open>running\<close> is unset, and when the call started in a quiet state no reader goroutine is
  active any more; a second call right after it can always be made, returns without
  waiting, and leaves the very same state.
\<close>

lemma Disconnect_idempotent:
  assumes "Disconnect_call w w1"
  shows "port (sm w1) = None \<and> \<not> running (sm w1) \<and> (quiet w \<longrightarrow> no_active w1) \<and>
         Disconnect_call w1 w1 \<and> (\<forall>w2. Disconnect_call w1 w2 \<longrightarrow> w2 = w1)"
proof -
  from Disconnect_call_result [OF assms]
  have p: "port (sm w1) = None" and r: "\<not> running (sm w1)" by simp_all
  from r have b: "stopReader_begin w1 = (Returned, w1)"
    by (simp add: stopReader_begin_Returned)
  have f: "Disconnect_finish w1 = w1"
    using p by (simp add: Disconnect_finish_def close_port_idem)
  have again: "Disconnect_call w1 w1"
    using Disconnect_idle [OF b] f by simp
  have only: "w2 = w1" if "Disconnect_call w1 w2" for w2
    using that
  proof cases
    case (Disconnect_idle w0)
    with r f show ?thesis by (simp add: stopReader_begin_Returned)
  next
    case (Disconnect_join d wa wb)
    with b show ?thesis by simp
  qed
  have q: "quiet w \<longrightarrow> no_active w1"
    using assms by (simp add: Disconnect_call_no_active)
  from p r q again only show ?thesis by blast
qed

lemma Disconnect_idempotent_example:
  "quiet
     \<lparr>sm = \<lparr>port = Some 7, portName = ''COM3'', baudRate = 9600, running = True,
             stopCh = Some 2, doneCh = Some 3\<rparr>,
      chans = [\<lparr>is_closed = False, buffered = []\<rparr>, \<lparr>is_closed = False, buffered = []\<rparr>,
               \<lparr>is_closed = False, buffered = []\<rparr>, \<lparr>is_closed = False, buffered = []\<rparr>],
      readers = [\<lparr>r_port = Some 7, r_ch = 0, r_errCh = 1, r_done = Some 3, r_active = True\<rparr>],
      waiting = [], closed_ports = [], panicked = False\<rparr> \<and>
   no_active
     \<lparr>sm = \<lparr>port = None, portName = ''COM3'', baudRate = 9600, running = False,
             stopCh = Some 2, doneCh = Some 3\<rparr>,
      chans = [\<lparr>is_closed = True, buffered = []\<rparr>, \<lparr>is_closed = False, buffered = []\<rparr>,
               \<lparr>is_closed = True, buffered = []\<rparr>, \<lparr>is_closed = True, buffered = []\<rparr>],
      readers = [\<lparr>r_port = Some 7, r_ch = 0, r_errCh = 1, r_done = Some 3, r_active = False\<rparr>],
      waiting = [], closed_ports = [7], panicked = False\<rparr> \<and>
   Disconnect_call
     \<lparr>sm = \<lparr>port = Some 7, portName = ''COM3'', baudRate = 9600, running = True,
             stopCh = Some 2, doneCh = Some 3\<rparr>,
      chans = [\<lparr>is_closed = False, buffered = []\<rparr>, \<lparr>is_closed = False, buffered = []\<rparr>,
               \<lparr>is_closed = False, buffered = []\<rparr>, \<lparr>is_closed = False, buffered = []\<rparr>],
      readers = [\<lparr>r_port = Some 7, r_ch = 0, r_errCh = 1, r_done = Some 3, r_active = True\<rparr>],
      waiting = [], closed_ports = [], panicked = False\<rparr>
     \<lparr>sm = \<lparr>port = None, portName = ''COM3'', baudRate = 9600, running = False,
             stopCh = Some 2, doneCh = Some 3\<rparr>,
      chans = [\<lparr>is_closed = True, buffered = []\<rparr>, \<lparr>is_closed = False, buffered = []\<rparr>,
               \<lparr>is_closed = True, buffered = []\<rparr>, \<lparr>is_closed = True, buffered = []\<rparr>],
      readers = [\<lparr>r_port = Some 7, r_ch = 0, r_errCh = 1, r_done = Some 3, r_active = False\<rparr>],
      waiting = [], closed_ports = [7], panicked = False\<rparr> \<and>
   Disconnect_call
     \<lparr>sm = \<lparr>port = None, portName = ''COM3'', baudRate = 9600, running = False,
             stopCh = Some 2, doneCh = Some 3\<rparr>,
      chans = [\<lparr>is_closed = True, buffered = []\<rparr>, \<lparr>is_closed = False, buffered = []\<rparr>,
               \<lparr>is_closed = True, buffered = []\<rparr>, \<lparr>is_closed = True, buffered = []\<rparr>],
      readers = [\<lparr>r_port = Some 7, r_ch = 0, r_errCh = 1, r_done = Some 3, r_active = False\<rparr>],
      waiting = [], closed_ports = [7], panicked = False\<rparr>
     \<lparr>sm = \<lparr>port = None, portName = ''COM3'', baudRate = 9600, running = False,
             stopCh = Some 2, doneCh = Some 3\<rparr>,
      chans = [\<lparr>is_closed = True, buffered = []\<rparr>, \<lparr>is_closed = False, buffered = []\<rparr>,
               \<lparr>is_closed = True, buffered = []\<rparr>, \<lparr>is_closed = True, buffered = []\<rparr>],
      readers = [\<lparr>r_port = Some 7, r_ch = 0, r_errCh = 1, r_done = Some 3, r_active = False\<rparr>],
      waiting = [], closed_ports = [7], panicked = False\<rparr>"
proof -
  let ?w = "\<lparr>sm = \<lparr>port = Some 7, portName = ''COM3'', baudRate = 9600, running = True,
             stopCh = Some 2, doneCh = Some 3\<rparr>,
      chans = [\<lparr>is_closed = False, buffered = []\<rparr>, \<lparr>is_closed = False, buffered = []\<rparr>,
               \<lparr>is_closed = False, buffered = []\<rparr>, \<lparr>is_closed = False, buffered = []\<rparr>],
      readers = [\<lparr>r_port = Some 7, r_ch = 0, r_errCh = 1, r_done = Some 3, r_active = True\<rparr>],
      waiting = [], closed_ports = [], panicked = False\<rparr>"
  let ?wa = "\<lparr>sm = \<lparr>port = Some 7, portName = ''COM3'', baudRate = 9600, running = False,
             stopCh = Some 2, doneCh = Some 3\<rparr>,
      chans = [\<lparr>is_closed = False, buffered = []\<rparr>, \<lparr>is_closed = False, buffered = []\<rparr>,
               \<lparr>is_closed = True, buffered = []\<rparr>, \<lparr>is_closed = False, buffered = []\<rparr>],
      readers = [\<lparr>r_port = Some 7, r_ch = 0, r_errCh = 1, r_done = Some 3, r_active = True\<rparr>],
      waiting = [], closed_ports = [], panicked = False\<rparr>"
  let ?wb = "\<lparr>sm = \<lparr>port = Some 7, portName = ''COM3'', baudRate = 9600, running = False,
             stopCh = Some 2, doneCh = Some 3\<rparr>,
      chans = [\<lparr>is_closed = True, buffered = []\<rparr>, \<lparr>is_closed = False, buffered = []\<rparr>,
               \<lparr>is_closed = True, buffered = []\<rparr>, \<lparr>is_closed = True, buffered = []\<rparr>],
      readers = [\<lparr>r_port = Some 7, r_ch = 0, r_errCh = 1, r_done = Some 3, r_active = False\<rparr>],
      waiting = [], closed_ports = [], panicked = False\<rparr>"
  have b: "stopReader_begin ?w = (Waiting (Some 3), ?wa)"
    by (simp add: world_eval)
  have "reader_step ?wa (reader_return 0 ?wa)"
    by (rule r_stop) (simp_all add: chan_closed_def)
  moreover have "reader_return 0 ?wa = ?wb"
    by (simp add: world_eval)
  ultimately have r: "reader_step\<^sup>*\<^sup>* ?wa ?wb" by simp
  have d: "wait_over ?wb (Some 3)"
    by (simp add: wait_over_def chan_closed_def)
  have c: "Disconnect_call ?w (Disconnect_finish ?wb)"
    using b r d by (rule Disconnect_join)
  have f: "Disconnect_finish ?wb =
     \<lparr>sm = \<lparr>port = None, portName = ''COM3'', baudRate = 9600, running = False,
             stopCh = Some 2, doneCh = Some 3\<rparr>,
      chans = [\<lparr>is_closed = True, buffered = []\<rparr>, \<lparr>is_closed = False, buffered = []\<rparr>,
               \<lparr>is_closed = True, buffered = []\<rparr>, \<lparr>is_closed = True, buffered = []\<rparr>],
      readers = [\<lparr>r_port = Some 7, r_ch = 0, r_errCh = 1, r_done = Some 3, r_active = False\<rparr>],
      waiting = [], closed_ports = [7], panicked = False\<rparr>"
    by (simp add: world_eval)
  have q: "quiet ?w"
    by (simp add: quiet_def joinable_def)
  from q c Disconnect_idempotent [OF c] show ?thesis
    unfolding f by blast
qed

text \<open>
  Claim C10. Called with \<open>running\<close> unset and no port, \<open>StartReading\<close> allocates four open
  channels, stores the new stop and done channels, sets \<open>running\<close> and starts a reader
  whose port is \<^verbatim>\<open>nil\<close>. The channels it returns, and the state of every channel, are the
  same as they would be with a port \<open>h\<close>. The reader started this way panics at its first
  read, unless it is stopped before.
\<close>

theorem StartReading_without_port:
  assumes "\<not> running (sm w)" and "port (sm w) = None"
  shows "StartReading w =
           ((length (chans w), Suc (length (chans w))),
            w\<lparr>chans := chans w @ replicate 4 \<lparr>is_closed = False, buffered = []\<rparr>,
              sm := (sm w)\<lparr>stopCh := Some (length (chans w) + 2),
                           doneCh := Some (length (chans w) + 3), running := True\<rparr>,
              readers := readers w @
                [\<lparr>r_port = None, r_ch = length (chans w), r_errCh = Suc (length (chans w)),
                  r_done = Some (length (chans w) + 3), r_active = True\<rparr>]\<rparr>) \<and>
         fst (StartReading (w\<lparr>sm := (sm w)\<lparr>port := Some h\<rparr>\<rparr>)) = fst (StartReading w) \<and>
         chans (snd (StartReading (w\<lparr>sm := (sm w)\<lparr>port := Some h\<rparr>\<rparr>))) =
           chans (snd (StartReading w)) \<and>
         (\<not> stop_at_top p \<longrightarrow>
            reader_task now (r_port (last (readers (snd (StartReading w))))) (p # ps) =
              \<lparr>partial = [], sent = [], errCh = [], exited = Some NilPanic\<rparr>)"
  using assms
  by (simp add: StartReading_def make_chan_def numeral_eq_Suc reader_task_def
        reader_loop_Cons_exited iteration_nil_port)

theorem StartReading_without_port_witness:
  "\<not> running (sm world0) \<and> port (sm world0) = None \<and>
   StartReading world0 =
     ((0, 1),
      \<lparr>sm = \<lparr>port = None, portName = [], baudRate = 9600, running = True,
              stopCh = Some 2, doneCh = Some 3\<rparr>,
       chans = [\<lparr>is_closed = False, buffered = []\<rparr>, \<lparr>is_closed = False, buffered = []\<rparr>,
                \<lparr>is_closed = False, buffered = []\<rparr>, \<lparr>is_closed = False, buffered = []\<rparr>],
       readers = [\<lparr>r_port = None, r_ch = 0, r_errCh = 1, r_done = Some 3, r_active = True\<rparr>],
       waiting = [], closed_ports = [], panicked = False\<rparr>) \<and>
   \<not> stop_at_top \<lparr>stop_at_top = False, read_data = ''a'', read_err = None,
       stop_at_send = None, stop_at_err = False\<rparr> \<and>
   reader_task (\<lambda>i. int i) (r_port (last (readers (snd (StartReading world0)))))
     (\<lparr>stop_at_top = False, read_data = ''a'', read_err = None,
       stop_at_send = None, stop_at_err = False\<rparr> # []) =
   \<lparr>partial = [], sent = [], errCh = [], exited = Some NilPanic\<rparr>"
proof -
  have h1: "\<not> running (sm world0)" by (simp add: world0_def NewSerialManager_def)
  have h2: "port (sm world0) = None" by (simp add: world0_def NewSerialManager_def)
  have h3: "\<not> stop_at_top \<lparr>stop_at_top = False, read_data = ''a'', read_err = None,
       stop_at_send = None, stop_at_err = False\<rparr>"
    by simp
  from StartReading_without_port [OF h1 h2, where h = 0 and now = "\<lambda>i. int i"
      and p = "\<lparr>stop_at_top = False, read_data = ''a'', read_err = None,
                 stop_at_send = None, stop_at_err = False\<rparr>" and ps = "[]"] h3
  have a: "StartReading world0 =
           ((length (chans world0), Suc (length (chans world0))),
            world0\<lparr>chans := chans world0 @ replicate 4 \<lparr>is_closed = False, buffered = []\<rparr>,
              sm := (sm world0)\<lparr>stopCh := Some (length (chans world0) + 2),
                           doneCh := Some (length (chans world0) + 3), running := True\<rparr>,
              readers := readers world0 @
                [\<lparr>r_port = None, r_ch = length (chans world0), r_errCh = Suc (length (chans world0)),
                  r_done = Some (length (chans world0) + 3), r_active = True\<rparr>]\<rparr>)"
    and b: "reader_task (\<lambda>i. int i) (r_port (last (readers (snd (StartReading world0)))))
     (\<lparr>stop_at_top = False, read_data = ''a'', read_err = None,
       stop_at_send = None, stop_at_err = False\<rparr> # []) =
     \<lparr>partial = [], sent = [], errCh = [], exited = Some NilPanic\<rparr>"
    by blast+
  have c: "StartReading world0 =
     ((0, 1),
      \<lparr>sm = \<lparr>port = None, portName = [], baudRate = 9600, running = True,
              stopCh = Some 2, doneCh = Some 3\<rparr>,
       chans = [\<lparr>is_closed = False, buffered = []\<rparr>, \<lparr>is_closed = False, buffered = []\<rparr>,
                \<lparr>is_closed = False, buffered = []\<rparr>, \<lparr>is_closed = False, buffered = []\<rparr>],
       readers = [\<lparr>r_port = None, r_ch = 0, r_errCh = 1, r_done = Some 3, r_active = True\<rparr>],
       waiting = [], closed_ports = [], panicked = False\<rparr>)"
    unfolding a by (simp add: world0_def NewSerialManager_def numeral_eq_Suc)
  from h1 h2 h3 b c show ?thesis by blast
qed

text \<open>
  Claim C1 fails on the code. After \<open>Connect\<close> and \<open>StartReading\<close>, a caller enters
  \<open>Disconnect\<close>: \<open>stopReader\<close> closes the stop channel, unsets \<open>running\<close> and releases
  the mutex to wait for the done channel. A call of \<open>StartReading\<close> in this window finds
  \<open>running\<close> unset and starts a second reader on the same port while the first has not
  returned. The state reached has two active readers on port 7; the stop channel now
  stored in the manager is open, so neither of them is told to stop. It takes the
  overlap: a single caller never gets there, as \<open>sequential_one_reader\<close> shows.
\<close>

theorem two_readers_in_stop_window:
  "let w = \<lparr>sm = \<lparr>port = Some 7, portName = ''COM3'', baudRate = 9600, running = True,
                  stopCh = Some 6, doneCh = Some 7\<rparr>,
            chans = [\<lparr>is_closed = False, buffered = []\<rparr>, \<lparr>is_closed = False, buffered = []\<rparr>,
                     \<lparr>is_closed = True, buffered = []\<rparr>, \<lparr>is_closed = False, buffered = []\<rparr>,
                     \<lparr>is_closed = False, buffered = []\<rparr>, \<lparr>is_closed = False, buffered = []\<rparr>,
                     \<lparr>is_closed = False, buffered = []\<rparr>, \<lparr>is_closed = False, buffered = []\<rparr>],
            readers = [\<lparr>r_port = Some 7, r_ch = 0, r_errCh = 1, r_done = Some 3, r_active = True\<rparr>,
                       \<lparr>r_port = Some 7, r_ch = 4, r_errCh = 5, r_done = Some 7, r_active = True\<rparr>],
            waiting = [(Some 3, InDisconnect)], closed_ports = [], panicked = False\<rparr>
   in reachable w \<and> length (filter r_active (readers w)) = 2 \<and>
      map r_port (readers w) = [Some 7, Some 7] \<and>
      \<not> chan_closed w (stopCh (sm w))"
proof -
  let ?w1 = "\<lparr>sm = \<lparr>port = Some 7, portName = ''COM3'', baudRate = 9600, running = False,
                   stopCh = None, doneCh = None\<rparr>,
             chans = [], readers = [], waiting = [], closed_ports = [], panicked = False\<rparr>"
  let ?w2 = "\<lparr>sm = \<lparr>port = Some 7, portName = ''COM3'', baudRate = 9600, running = True,
                   stopCh = Some 2, doneCh = Some 3\<rparr>,
             chans = [\<lparr>is_closed = False, buffered = []\<rparr>, \<lparr>is_closed = False, buffered = []\<rparr>,
                      \<lparr>is_closed = False, buffered = []\<rparr>, \<lparr>is_closed = False, buffered = []\<rparr>],
             readers = [\<lparr>r_port = Some 7, r_ch = 0, r_errCh = 1, r_done = Some 3, r_active = True\<rparr>],
             waiting = [], closed_ports = [], panicked = False\<rparr>"
  let ?w2' = "\<lparr>sm = \<lparr>port = Some 7, portName = ''COM3'', baudRate = 9600, running = False,
                   stopCh = Some 2, doneCh = Some 3\<rparr>,
             chans = [\<lparr>is_closed = False, buffered = []\<rparr>, \<lparr>is_closed = False, buffered = []\<rparr>,
                      \<lparr>is_closed = True, buffered = []\<rparr>, \<lparr>is_closed = False, buffered = []\<rparr>],
             readers = [\<lparr>r_port = Some 7, r_ch = 0, r_errCh = 1, r_done = Some 3, r_active = True\<rparr>],
             waiting = [], closed_ports = [], panicked = False\<rparr>"
  let ?w3 = "\<lparr>sm = \<lparr>port = Some 7, portName = ''COM3'', baudRate = 9600, running = False,
                   stopCh = Some 2, doneCh = Some 3\<rparr>,
             chans = [\<lparr>is_closed = False, buffered = []\<rparr>, \<lparr>is_closed = False, buffered = []\<rparr>,
                      \<lparr>is_closed = True, buffered = []\<rparr>, \<lparr>is_closed = False, buffered = []\<rparr>],
             readers = [\<lparr>r_port = Some 7, r_ch = 0, r_errCh = 1, r_done = Some 3, r_active = True\<rparr>],
             waiting = [(Some 3, InDisconnect)], closed_ports = [], panicked = False\<rparr>"
  let ?w4 = "\<lparr>sm = \<lparr>port = Some 7, portName = ''COM3'', baudRate = 9600, running = True,
                  stopCh = Some 6, doneCh = Some 7\<rparr>,
            chans = [\<lparr>is_closed = False, buffered = []\<rparr>, \<lparr>is_closed = False, buffered = []\<rparr>,
                     \<lparr>is_closed = True, buffered = []\<rparr>, \<lparr>is_closed = False, buffered = []\<rparr>,
                     \<lparr>is_closed = False, buffered = []\<rparr>, \<lparr>is_closed = False, buffered = []\<rparr>,
                     \<lparr>is_closed = False, buffered = []\<rparr>, \<lparr>is_closed = False, buffered = []\<rparr>],
            readers = [\<lparr>r_port = Some 7, r_ch = 0, r_errCh = 1, r_done = Some 3, r_active = True\<rparr>,
                       \<lparr>r_port = Some 7, r_ch = 4, r_errCh = 5, r_done = Some 7, r_active = True\<rparr>],
            waiting = [(Some 3, InDisconnect)], closed_ports = [], panicked = False\<rparr>"
  have "step world0 (finish (InConnect ''COM3'' 9600) (Inr 7) world0)"
    by (rule call_idle) (simp_all add: world0_def NewSerialManager_def stopReader_begin_def)
  moreover have "finish (InConnect ''COM3'' 9600) (Inr 7) world0 = ?w1"
    by (simp add: world0_def NewSerialManager_def Connect_finish_def close_port_def)
  ultimately have s1: "step world0 ?w1" by simp
  have "step ?w1 (snd (StartReading ?w1))"
    by (rule call_StartReading) simp
  moreover have "snd (StartReading ?w1) = ?w2"
    by (simp add: StartReading_def make_chan_def)
  ultimately have s2: "step ?w1 ?w2" by simp
  have b: "stopReader_begin ?w2 = (Waiting (Some 3), ?w2')"
    by (simp add: stopReader_begin_def close_chan_def)
  have "step ?w2 (?w2'\<lparr>waiting := waiting ?w2' @ [(Some 3, InDisconnect)]\<rparr>)"
    by (rule call_wait [OF _ b]) simp
  then have s3: "step ?w2 ?w3" by simp
  have "step ?w3 (snd (StartReading ?w3))"
    by (rule call_StartReading) simp
  moreover have "snd (StartReading ?w3) = ?w4"
    by (simp add: StartReading_def make_chan_def)
  ultimately have s4: "step ?w3 ?w4" by simp
  have "step\<^sup>*\<^sup>* world0 ?w1" using s1 by (rule r_into_rtranclp)
  then have "step\<^sup>*\<^sup>* world0 ?w2" using s2 by (rule rtranclp.rtrancl_into_rtrancl)
  then have "step\<^sup>*\<^sup>* world0 ?w3" using s3 by (rule rtranclp.rtrancl_into_rtrancl)
  then have "step\<^sup>*\<^sup>* world0 ?w4" using s4 by (rule rtranclp.rtrancl_into_rtrancl)
  then have r: "reachable ?w4" by (simp add: reachable_def)
  show ?thesis
    using r by (simp add: chan_closed_def)
qed

text \<open>
  The stop window: after \<open>Connect\<close> and \<open>StartReading\<close>, a caller of \<open>Disconnect\<close> has
  closed the stop channel, unset \<open>running\<close> and released the mutex; it waits for the done
  channel, and reader 0 has not returned yet.
\<close>

lemma stop_window_reachable:
  "reachable
     \<lparr>sm = \<lparr>port = Some 7, portName = ''COM3'', baudRate = 9600, running = False,
             stopCh = Some 2, doneCh = Some 3\<rparr>,
      chans = [\<lparr>is_closed = False, buffered = []\<rparr>, \<lparr>is_closed = False, buffered = []\<rparr>,
               \<lparr>is_closed = True, buffered = []\<rparr>, \<lparr>is_closed = False, buffered = []\<rparr>],
      readers = [\<lparr>r_port = Some 7, r_ch = 0, r_errCh = 1, r_done = Some 3, r_active = True\<rparr>],
      waiting = [(Some 3, InDisconnect)], closed_ports = [], panicked = False\<rparr>"
proof -
  let ?w1 = "\<lparr>sm = \<lparr>port = Some 7, portName = ''COM3'', baudRate = 9600, running = False,
                   stopCh = None, doneCh = None\<rparr>,
             chans = [], readers = [], waiting = [], closed_ports = [], panicked = False\<rparr>"
  let ?w2 = "\<lparr>sm = \<lparr>port = Some 7, portName = ''COM3'', baudRate = 9600, running = True,
                   stopCh = Some 2, doneCh = Some 3\<rparr>,
             chans = [\<lparr>is_closed = False, buffered = []\<rparr>, \<lparr>is_closed = False, buffered = []\<rparr>,
                      \<lparr>is_closed = False, buffered = []\<rparr>, \<lparr>is_closed = False, buffered = []\<rparr>],
             readers = [\<lparr>r_port = Some 7, r_ch = 0, r_errCh = 1, r_done = Some 3, r_active = True\<rparr>],
             waiting = [], closed_ports = [], panicked = False\<rparr>"
  let ?w2' = "\<lparr>sm = \<lparr>port = Some 7, portName = ''COM3'', baudRate = 9600, running = False,
                   stopCh = Some 2, doneCh = Some 3\<rparr>,
             chans = [\<lparr>is_closed = False, buffered = []\<rparr>, \<lparr>is_closed = False, buffered = []\<rparr>,
                      \<lparr>is_closed = True, buffered = []\<rparr>, \<lparr>is_closed = False, buffered = []\<rparr>],
             readers = [\<lparr>r_port = Some 7, r_ch = 0, r_errCh = 1, r_done = Some 3, r_active = True\<rparr>],
             waiting = [], closed_ports = [], panicked = False\<rparr>"
  let ?w3 = "\<lparr>sm = \<lparr>port = Some 7, portName = ''COM3'', baudRate = 9600, running = False,
                   stopCh = Some 2, doneCh = Some 3\<rparr>,
             chans = [\<lparr>is_closed = False, buffered = []\<rparr>, \<lparr>is_closed = False, buffered = []\<rparr>,
                      \<lparr>is_closed = True, buffered = []\<rparr>, \<lparr>is_closed = False, buffered = []\<rparr>],
             readers = [\<lparr>r_port = Some 7, r_ch = 0, r_errCh = 1, r_done = Some 3, r_active = True\<rparr>],
             waiting = [(Some 3, InDisconnect)], closed_ports = [], panicked = False\<rparr>"
  have "step world0 (finish (InConnect ''COM3'' 9600) (Inr 7) world0)"
    by (rule call_idle) (simp_all add: world0_def NewSerialManager_def stopReader_begin_def)
  moreover have "finish (InConnect ''COM3'' 9600) (Inr 7) world0 = ?w1"
    by (simp add: world0_def NewSerialManager_def Connect_finish_def close_port_def)
  ultimately have s1: "step world0 ?w1" by simp
  have "step ?w1 (snd (StartReading ?w1))"
    by (rule call_StartReading) simp
  moreover have "snd (StartReading ?w1) = ?w2"
    by (simp add: StartReading_def make_chan_def)
  ultimately have s2: "step ?w1 ?w2" by simp
  have b: "stopReader_begin ?w2 = (Waiting (Some 3), ?w2')"
    by (simp add: stopReader_begin_def close_chan_def)
  have "step ?w2 (?w2'\<lparr>waiting := waiting ?w2' @ [(Some 3, InDisconnect)]\<rparr>)"
    by (rule call_wait [OF _ b]) simp
  then have s3: "step ?w2 ?w3" by simp
  have "step\<^sup>*\<^sup>* world0 ?w1" using s1 by (rule r_into_rtranclp)
  then have "step\<^sup>*\<^sup>* world0 ?w2" using s2 by (rule rtranclp.rtrancl_into_rtrancl)
  then have "step\<^sup>*\<^sup>* world0 ?w3" using s3 by (rule rtranclp.rtrancl_into_rtrancl)
  then show ?thesis by (simp add: reachable_def)
qed

text \<open>
  Claim C8 fails on the code, by the defect of claim C1. In the stop window reader 0 is
  still running, but \<open>stopReader\<close> has already unset the flag that \<open>StartReading\<close> tests.
  A call of \<open>StartReading\<close> there returns the channels 4 and 5 open, not closed, stores
  the new stop and done channels 6 and 7, sets \<open>running\<close> and starts a second reader.
\<close>

theorem StartReading_beside_active_reader:
  "let w = \<lparr>sm = \<lparr>port = Some 7, portName = ''COM3'', baudRate = 9600, running = False,
                  stopCh = Some 2, doneCh = Some 3\<rparr>,
            chans = [\<lparr>is_closed = False, buffered = []\<rparr>, \<lparr>is_closed = False, buffered = []\<rparr>,
                     \<lparr>is_closed = True, buffered = []\<rparr>, \<lparr>is_closed = False, buffered = []\<rparr>],
            readers = [\<lparr>r_port = Some 7, r_ch = 0, r_errCh = 1, r_done = Some 3, r_active = True\<rparr>],
            waiting = [(Some 3, InDisconnect)], closed_ports = [], panicked = False\<rparr>
   in reachable w \<and> r_active (readers w ! 0) \<and>
      StartReading w =
        ((4, 5),
         \<lparr>sm = \<lparr>port = Some 7, portName = ''COM3'', baudRate = 9600, running = True,
                 stopCh = Some 6, doneCh = Some 7\<rparr>,
          chans = [\<lparr>is_closed = False, buffered = []\<rparr>, \<lparr>is_closed = False, buffered = []\<rparr>,
                   \<lparr>is_closed = True, buffered = []\<rparr>, \<lparr>is_closed = False, buffered = []\<rparr>,
                   \<lparr>is_closed = False, buffered = []\<rparr>, \<lparr>is_closed = False, buffered = []\<rparr>,
                   \<lparr>is_closed = False, buffered = []\<rparr>, \<lparr>is_closed = False, buffered = []\<rparr>],
          readers = [\<lparr>r_port = Some 7, r_ch = 0, r_errCh = 1, r_done = Some 3, r_active = True\<rparr>,
                     \<lparr>r_port = Some 7, r_ch = 4, r_errCh = 5, r_done = Some 7, r_active = True\<rparr>],
          waiting = [(Some 3, InDisconnect)], closed_ports = [], panicked = False\<rparr>) \<and>
      \<not> chan_closed (snd (StartReading w)) (Some (fst (fst (StartReading w)))) \<and>
      \<not> chan_closed (snd (StartReading w)) (Some (snd (fst (StartReading w)))) \<and>
      stopCh (sm (snd (StartReading w))) \<noteq> stopCh (sm w) \<and>
      doneCh (sm (snd (StartReading w))) \<noteq> doneCh (sm w) \<and>
      running (sm (snd (StartReading w))) \<noteq> running (sm w) \<and>
      length (readers (snd (StartReading w))) = Suc (length (readers w))"
proof -
  let ?w = "\<lparr>sm = \<lparr>port = Some 7, portName = ''COM3'', baudRate = 9600, running = False,
                  stopCh = Some 2, doneCh = Some 3\<rparr>,
            chans = [\<lparr>is_closed = False, buffered = []\<rparr>, \<lparr>is_closed = False, buffered = []\<rparr>,
                     \<lparr>is_closed = True, buffered = []\<rparr>, \<lparr>is_closed = False, buffered = []\<rparr>],
            readers = [\<lparr>r_port = Some 7, r_ch = 0, r_errCh = 1, r_done = Some 3, r_active = True\<rparr>],
            waiting = [(Some 3, InDisconnect)], closed_ports = [], panicked = False\<rparr>"
  have e: "StartReading ?w =
        ((4, 5),
         \<lparr>sm = \<lparr>port = Some 7, portName = ''COM3'', baudRate = 9600, running = True,
                 stopCh = Some 6, doneCh = Some 7\<rparr>,
          chans = [\<lparr>is_closed = False, buffered = []\<rparr>, \<lparr>is_closed = False, buffered = []\<rparr>,
                   \<lparr>is_closed = True, buffered = []\<rparr>, \<lparr>is_closed = False, buffered = []\<rparr>,
                   \<lparr>is_closed = False, buffered = []\<rparr>, \<lparr>is_closed = False, buffered = []\<rparr>,
                   \<lparr>is_closed = False, buffered = []\<rparr>, \<lparr>is_closed = False, buffered = []\<rparr>],
          readers = [\<lparr>r_port = Some 7, r_ch = 0, r_errCh = 1, r_done = Some 3, r_active = True\<rparr>,
                     \<lparr>r_port = Some 7, r_ch = 4, r_errCh = 5, r_done = Some 7, r_active = True\<rparr>],
          waiting = [(Some 3, InDisconnect)], closed_ports = [], panicked = False\<rparr>)"
    by (simp add: StartReading_def make_chan_def)
  show ?thesis
    unfolding Let_def e using stop_window_reachable by (simp add: chan_closed_def)
qed

text \<open>
  Claim C9 fails on the code, by the defect of claim C1. In the stop window a second call
  of \<open>Disconnect\<close>, overlapping the first, finds the flag \<open>running\<close> unset and returns
  from \<open>stopReader\<close> at once: it closes port 7, clears the handle and returns, in one
  step, while reader 0 is still active and holds the closed port.
\<close>

theorem Disconnect_beside_active_reader:
  "let w = \<lparr>sm = \<lparr>port = Some 7, portName = ''COM3'', baudRate = 9600, running = False,
                  stopCh = Some 2, doneCh = Some 3\<rparr>,
            chans = [\<lparr>is_closed = False, buffered = []\<rparr>, \<lparr>is_closed = False, buffered = []\<rparr>,
                     \<lparr>is_closed = True, buffered = []\<rparr>, \<lparr>is_closed = False, buffered = []\<rparr>],
            readers = [\<lparr>r_port = Some 7, r_ch = 0, r_errCh = 1, r_done = Some 3, r_active = True\<rparr>],
            waiting = [(Some 3, InDisconnect)], closed_ports = [], panicked = False\<rparr>;
       w' = \<lparr>sm = \<lparr>port = None, portName = ''COM3'', baudRate = 9600, running = False,
                  stopCh = Some 2, doneCh = Some 3\<rparr>,
             chans = [\<lparr>is_closed = False, buffered = []\<rparr>, \<lparr>is_closed = False, buffered = []\<rparr>,
                      \<lparr>is_closed = True, buffered = []\<rparr>, \<lparr>is_closed = False, buffered = []\<rparr>],
             readers = [\<lparr>r_port = Some 7, r_ch = 0, r_errCh = 1, r_done = Some 3, r_active = True\<rparr>],
             waiting = [(Some 3, InDisconnect)], closed_ports = [7], panicked = False\<rparr>
   in reachable w \<and> stopReader_begin w = (Returned, w) \<and> Disconnect_finish w = w' \<and>
      step w w' \<and> reachable w' \<and>
      port (sm w') = None \<and> closed_ports w' = [7] \<and>
      r_active (readers w' ! 0) \<and> r_port (readers w' ! 0) = Some 7 \<and>
      length (filter r_active (readers w')) = 1"
proof -
  let ?w = "\<lparr>sm = \<lparr>port = Some 7, portName = ''COM3'', baudRate = 9600, running = False,
                  stopCh = Some 2, doneCh = Some 3\<rparr>,
            chans = [\<lparr>is_closed = False, buffered = []\<rparr>, \<lparr>is_closed = False, buffered = []\<rparr>,
                     \<lparr>is_closed = True, buffered = []\<rparr>, \<lparr>is_closed = False, buffered = []\<rparr>],
            readers = [\<lparr>r_port = Some 7, r_ch = 0, r_errCh = 1, r_done = Some 3, r_active = True\<rparr>],
            waiting = [(Some 3, InDisconnect)], closed_ports = [], panicked = False\<rparr>"
  let ?w' = "\<lparr>sm = \<lparr>port = None, portName = ''COM3'', baudRate = 9600, running = False,
                  stopCh = Some 2, doneCh = Some 3\<rparr>,
             chans = [\<lparr>is_closed = False, buffered = []\<rparr>, \<lparr>is_closed = False, buffered = []\<rparr>,
                      \<lparr>is_closed = True, buffered = []\<rparr>, \<lparr>is_closed = False, buffered = []\<rparr>],
             readers = [\<lparr>r_port = Some 7, r_ch = 0, r_errCh = 1, r_done = Some 3, r_active = True\<rparr>],
             waiting = [(Some 3, InDisconnect)], closed_ports = [7], panicked = False\<rparr>"
  have b: "stopReader_begin ?w = (Returned, ?w)"
    by (simp add: stopReader_begin_def)
  have f: "Disconnect_finish ?w = ?w'"
    by (simp add: Disconnect_finish_def close_port_def)
  have "step ?w (finish InDisconnect (Inr 0) ?w)"
    by (rule call_idle [OF _ b]) simp
  then have s: "step ?w ?w'" using f by simp
  have r: "reachable ?w'"
    using stop_window_reachable s unfolding reachable_def
    by (rule rtranclp.rtrancl_into_rtrancl)
  show ?thesis
    unfolding Let_def using stop_window_reachable b f s r by simp
qed

end
